theory Spec2Isabelle
  imports
    Main
    "HOL-Library.AList"
    "HOL-Library.Char_ord"
    "HOL-Library.List_Lexorder"
    "HOL-Library.Product_Lexorder"
begin

section \<open>Exceptions\<close>

text \<open>
  The exceptions that \<^verbatim>\<open>update.py\<close> can meet in the functions modelled here: a
  \<^verbatim>\<open>KeyError\<close> of a mapping subscription (its argument is the missing key), the
  \<^verbatim>\<open>InvalidVersion\<close> of \<^verbatim>\<open>packaging.version.Version\<close> (its argument is the
  string that was refused), and the \<^verbatim>\<open>ValueError\<close> of \<^verbatim>\<open>int\<close> on a string with more
  digits than the interpreter converts (its argument is that string; the message of the
  exception gives the number of its digits, not the string). A function that can raise
  returns \<open>error + 'a\<close>, with \<open>Inl\<close> for the raise.
\<close>

datatype error = KeyError string | InvalidVersion string | ValueError string

section \<open>The identity registry: \<^verbatim>\<open>IDECode\<close>\<close>

text \<open>
  \<^verbatim>\<open>class IDECode(StrEnum)\<close>: thirteen members. A member has a \<^verbatim>\<open>name\<close> (the short
  code the class body binds) and a value (the display name).
\<close>

datatype IDECode = CL | GO | IIC | IIU | PCC | PCP | PS | RC | RD | RM | RR | RS | WS

fun IDECode_name :: "IDECode \<Rightarrow> string" where
  "IDECode_name CL = ''CL''"
| "IDECode_name GO = ''GO''"
| "IDECode_name IIC = ''IIC''"
| "IDECode_name IIU = ''IIU''"
| "IDECode_name PCC = ''PCC''"
| "IDECode_name PCP = ''PCP''"
| "IDECode_name PS = ''PS''"
| "IDECode_name RC = ''RC''"
| "IDECode_name RD = ''RD''"
| "IDECode_name RM = ''RM''"
| "IDECode_name RR = ''RR''"
| "IDECode_name RS = ''RS''"
| "IDECode_name WS = ''WS''"

fun IDECode_value :: "IDECode \<Rightarrow> string" where
  "IDECode_value CL = ''CLion''"
| "IDECode_value GO = ''GoLand''"
| "IDECode_value IIC = ''IntelliJ IDEA Community Edition''"
| "IDECode_value IIU = ''IntelliJ IDEA Ultimate''"
| "IDECode_value PCC = ''PyCharm Community Edition''"
| "IDECode_value PCP = ''PyCharm Professional Edition''"
| "IDECode_value PS = ''PhpStorm''"
| "IDECode_value RC = ''ReSharper C++''"
| "IDECode_value RD = ''Rider''"
| "IDECode_value RM = ''RubyMine''"
| "IDECode_value RR = ''RustRover''"
| "IDECode_value RS = ''ReSharper''"
| "IDECode_value WS = ''WebStorm''"

text \<open>The members in declaration order, and \<^verbatim>\<open>IDECode.__members__\<close>: the ordered
  mapping from member name to member.\<close>

definition IDECode_members :: "IDECode list" where
  "IDECode_members = [CL, GO, IIC, IIU, PCC, PCP, PS, RC, RD, RM, RR, RS, WS]"

definition members :: "(string \<times> IDECode) list" where
  "members = map (\<lambda>m. (IDECode_name m, m)) IDECode_members"

text \<open>\<^verbatim>\<open>cls[member]\<close>: the lookup by member name, which raises \<^verbatim>\<open>KeyError(member)\<close>
  for a string that names no member.\<close>

definition IDECode_getitem :: "string \<Rightarrow> error + IDECode" where
  "IDECode_getitem member =
     (case map_of members member of
        None \<Rightarrow> Inl (KeyError member)
      | Some m \<Rightarrow> Inr m)"

text \<open>
  \<^verbatim>\<open>
  @classmethod
  def get(cls, member: str) -> Self | None:
      try:
          return cls[member]
      except KeyError:
          return None
  \<close>
  The handler catches \<^verbatim>\<open>KeyError\<close> only: any other exception of the lookup would
  leave \<^verbatim>\<open>get\<close>, so the result type keeps the error side.
\<close>

definition IDECode_get :: "string \<Rightarrow> error + IDECode option" where
  "IDECode_get member =
     (case IDECode_getitem member of
        Inr m \<Rightarrow> Inr (Some m)
      | Inl (KeyError k) \<Rightarrow> Inr None
      | Inl e \<Rightarrow> Inl e)"

section \<open>The release model\<close>

text \<open>
  \<^verbatim>\<open>Release\<close> and \<^verbatim>\<open>Product\<close> are pydantic models; \<^verbatim>\<open>IDEList\<close> is a list of
  products. A \<^verbatim>\<open>datetime.date\<close> is its three fields.
\<close>

record Date =
  year :: nat
  month :: nat
  day :: nat

record Release =
  version :: string
  build :: "string option"
  date :: Date

record Product =
  code :: string
  name :: string
  releases :: "Release list"

type_synonym IDEList = "Product list"

text \<open>
  \<^verbatim>\<open>
  @property
  def releases(self) -> Iterator[tuple[IDECode, Release]]:
      yield from (
          (IDECode[ide.code], release)
          for ide in self
          for release in ide.releases
      )
  \<close>
  The generator evaluates \<^verbatim>\<open>IDECode[ide.code]\<close> once for every release it yields, so a
  product without releases is passed over without a lookup. Its consumers build local
  values only while they iterate, so the model returns either all the pairs or the first
  exception of the iteration.
\<close>

fun product_releases :: "string \<Rightarrow> Release list \<Rightarrow> error + (IDECode \<times> Release) list" where
  "product_releases c [] = Inr []"
| "product_releases c (release # rs) =
     (case IDECode_getitem c of
        Inl e \<Rightarrow> Inl e
      | Inr m \<Rightarrow>
          (case product_releases c rs of
             Inl e \<Rightarrow> Inl e
           | Inr ys \<Rightarrow> Inr ((m, release) # ys)))"

fun IDEList_releases :: "IDEList \<Rightarrow> error + (IDECode \<times> Release) list" where
  "IDEList_releases [] = Inr []"
| "IDEList_releases (ide # ides) =
     (case product_releases (code ide) (releases ide) of
        Inl e \<Rightarrow> Inl e
      | Inr ys \<Rightarrow>
          (case IDEList_releases ides of
             Inl e \<Rightarrow> Inl e
           | Inr zs \<Rightarrow> Inr (ys @ zs)))"

section \<open>The aggregator: \<^verbatim>\<open>_map_version_to_build_numbers\<close>\<close>

text \<open>
  A Python \<^verbatim>\<open>dict\<close> keeps its keys in insertion order, and assigning to a key that is
  present keeps the key's place: an association list with \<open>AList.update\<close>. The
  table maps a raw version string to a row, and a row maps a member to the build stored
  for it (of type \<^verbatim>\<open>BuildNumber | None\<close>).
\<close>

type_synonym row = "(IDECode \<times> string option) list"
type_synonym table = "(string \<times> row) list"

text \<open>
  The body of the loop:
  \<^verbatim>\<open>
  version, build = release.version, release.build
  if build is None:
      continue
  if version not in table:
      table[version] = {}
  table[version][code] = build
  \<close>
  The subscription \<^verbatim>\<open>table[version]\<close> of the last line raises \<^verbatim>\<open>KeyError\<close> on a
  missing key.
\<close>

definition table_step :: "table \<Rightarrow> IDECode \<times> Release \<Rightarrow> error + table" where
  "table_step table cr =
     (case cr of (c, release) \<Rightarrow>
        (case build release of
           None \<Rightarrow> Inr table
         | Some b \<Rightarrow>
             (let table1 =
                (if version release \<notin> set (map fst table)
                 then AList.update (version release) [] table else table)
              in case map_of table1 (version release) of
                   None \<Rightarrow> Inl (KeyError (version release))
                 | Some r \<Rightarrow>
                     Inr (AList.update (version release)
                            (AList.update c (build release) r) table1))))"

fun table_loop :: "(IDECode \<times> Release) list \<Rightarrow> table \<Rightarrow> error + table" where
  "table_loop [] table = Inr table"
| "table_loop (cr # crs) table =
     (case table_step table cr of
        Inl e \<Rightarrow> Inl e
      | Inr table' \<Rightarrow> table_loop crs table')"

text \<open>
  \<^verbatim>\<open>sorted(table.items(), reverse = True, key = lambda item: Version(item[0]))\<close>.
  \<^verbatim>\<open>sorted\<close> first calls the key function on every item, in order, and the first
  exception leaves it. With \<^verbatim>\<open>reverse = True\<close> CPython reverses the list, sorts it
  stably in ascending order of the keys and reverses the result, so items with equal
  keys keep their order. \<^verbatim>\<open>Version\<close> comes from the \<^verbatim>\<open>packaging\<close> library: the
  aggregator takes it as a parameter, a function from the raw string to an exception or
  to a key of a linearly ordered type.
\<close>

fun sort_keys :: "(string \<Rightarrow> error + 'k) \<Rightarrow> (string \<times> 'r) list \<Rightarrow> error + ('k \<times> string \<times> 'r) list" where
  "sort_keys Version [] = Inr []"
| "sort_keys Version (item # items) =
     (case Version (fst item) of
        Inl e \<Rightarrow> Inl e
      | Inr k \<Rightarrow>
          (case sort_keys Version items of
             Inl e \<Rightarrow> Inl e
           | Inr ks \<Rightarrow> Inr ((k, item) # ks)))"

definition sorted_reverse :: "('k::linorder \<times> 'a) list \<Rightarrow> 'a list" where
  "sorted_reverse keyed = map snd (rev (sort_key fst (rev keyed)))"

text \<open>\<^verbatim>\<open>dict(sorted_items)\<close>: the items are inserted one after the other.\<close>

definition dict_of_items :: "('a \<times> 'b) list \<Rightarrow> ('a \<times> 'b) list" where
  "dict_of_items items = foldl (\<lambda>d item. AList.update (fst item) (snd item) d) [] items"

definition map_version_to_build_numbers ::
  "(string \<Rightarrow> error + 'k::linorder) \<Rightarrow> IDEList \<Rightarrow> error + table" where
  "map_version_to_build_numbers Version ides =
     (case IDEList_releases ides of
        Inl e \<Rightarrow> Inl e
      | Inr crs \<Rightarrow>
          (case table_loop crs [] of
             Inl e \<Rightarrow> Inl e
           | Inr table \<Rightarrow>
               (case sort_keys Version table of
                  Inl e \<Rightarrow> Inl e
                | Inr keyed \<Rightarrow> Inr (dict_of_items (sorted_reverse keyed)))))"

section \<open>The sort key: \<^verbatim>\<open>packaging.version.Version\<close>\<close>

text \<open>
  \<^verbatim>\<open>Version\<close> is the class of the \<^verbatim>\<open>packaging\<close> library (release 24.1 is modelled).
  Its constructor searches the string with the regular expression
  \<^verbatim>\<open>^\s*\<close> + \<^verbatim>\<open>VERSION_PATTERN\<close> + \<^verbatim>\<open>\s*$\<close>, compiled with \<^verbatim>\<open>re.VERBOSE | re.IGNORECASE\<close>,
  raises \<^verbatim>\<open>InvalidVersion\<close> when there is no match, and otherwise computes a comparison
  key from the groups; two versions compare as their keys do.

  A regular expression is modelled by the list of its matches at the start of a string,
  in the order in which a backtracking matcher tries them (a greedy repetition tries
  the longest match first, an alternation its branches from left to right); a match is
  the value of its groups and the rest of the string. The match that
  \<^verbatim>\<open>re.search\<close> returns is the first one of the whole expression.

  Strings are lists of bytes, and the model is of ASCII strings (\<open>ascii\<close> below): on
  them \<^verbatim>\<open>\s\<close> is the ten characters of \<open>is_space\<close> and ignoring case is the map
  of \<open>A\<close>-\<open>Z\<close> to \<open>a\<close>-\<open>z\<close>. On other strings Python's classes are wider
  (\<^verbatim>\<open>\s\<close> matches U+00A0, ignoring case lets U+017F match \<open>s\<close>), so what is proved
  of the model for all strings of an input is stated for ASCII strings.
\<close>

definition ascii :: "string \<Rightarrow> bool" where
  "ascii s = list_all (\<lambda>c. (of_char c :: nat) < 128) s"

type_synonym 'a regex = "string \<Rightarrow> ('a \<times> string) list"

definition is_digit :: "char \<Rightarrow> bool" where
  "is_digit c = (CHR ''0'' \<le> c \<and> c \<le> CHR ''9'')"

definition is_space :: "char \<Rightarrow> bool" where
  "is_space c = (c \<in> set [CHR '' '', CHR 0x09, CHR 0x0A, CHR 0x0B, CHR 0x0C, CHR 0x0D,
                            CHR 0x1C, CHR 0x1D, CHR 0x1E, CHR 0x1F])"

definition lower :: "char \<Rightarrow> char" where
  "lower c = (if CHR ''A'' \<le> c \<and> c \<le> CHR ''Z'' then char_of (of_char c + (32::nat)) else c)"

definition is_alnum :: "char \<Rightarrow> bool" where
  "is_alnum c = (is_digit c \<or> (CHR ''a'' \<le> lower c \<and> lower c \<le> CHR ''z''))"

definition is_sep :: "char \<Rightarrow> bool" where
  "is_sep c = (c \<in> set ''-_.'')"

text \<open>The empty expression, the sequence of two expressions, \<^verbatim>\<open>(...)?\<close>,
  \<^verbatim>\<open>[...]+\<close> and \<^verbatim>\<open>[...]*\<close> over a class of characters, one character of a class, a
  literal and an alternation of literals.\<close>

definition ret :: "'a \<Rightarrow> 'a regex" where
  "ret x s = [(x, s)]"

definition seq :: "'a regex \<Rightarrow> ('a \<Rightarrow> 'b regex) \<Rightarrow> 'b regex" where
  "seq p f s = concat (map (\<lambda>(x, r). f x r) (p s))"

definition opt :: "'a regex \<Rightarrow> 'a option regex" where
  "opt p s = map (\<lambda>(x, r). (Some x, r)) (p s) @ [(None, s)]"

fun class_plus :: "(char \<Rightarrow> bool) \<Rightarrow> string regex" where
  "class_plus P [] = []"
| "class_plus P (c # s) = (if P c then map (\<lambda>(m, r). (c # m, r)) (class_plus P s) @ [([c], s)] else [])"

definition class_star :: "(char \<Rightarrow> bool) \<Rightarrow> string regex" where
  "class_star P s = class_plus P s @ [([], s)]"

definition one :: "(char \<Rightarrow> bool) \<Rightarrow> char regex" where
  "one P s = (case s of [] \<Rightarrow> [] | c # r \<Rightarrow> if P c then [(c, r)] else [])"

definition lit :: "string \<Rightarrow> string regex" where
  "lit w s =
     (if map lower (take (length w) s) = w then [(take (length w) s, drop (length w) s)] else [])"

definition alt :: "string list \<Rightarrow> string regex" where
  "alt ws s = concat (map (\<lambda>w. lit w s) ws)"

text \<open>\<^verbatim>\<open>(?:S[...]+)*\<close>: a repetition of a separator and one or more characters of a
  class. Each round consumes a character, which is what makes the recursion end.\<close>

lemma class_plus_shorter: "(m, r) \<in> set (class_plus P s) \<Longrightarrow> length r < length s"
proof (induction s arbitrary: m r)
  case Nil
  then show ?case by simp
next
  case (Cons c s)
  then show ?case by (fastforce split: if_splits)
qed

function sep_plus_star :: "(char \<Rightarrow> bool) \<Rightarrow> (char \<Rightarrow> bool) \<Rightarrow> string list regex" where
  "sep_plus_star S P [] = [([], [])]"
| "sep_plus_star S P (c # s) =
     (if S c
      then concat (map (\<lambda>(m, r). map (\<lambda>(ms, r'). (m # ms, r')) (sep_plus_star S P r)) (class_plus P s))
      else []) @ [([], c # s)]"
  by pat_completeness auto
termination
  by (relation "measure (\<lambda>(S, P, s). length s)") (auto dest: class_plus_shorter)


text \<open>
  \<^verbatim>\<open>
  v?
  (?:
      (?:(?P<epoch>[0-9]+)!)?                           # epoch
      (?P<release>[0-9]+(?:\.[0-9]+)*)                  # release segment
      (?P<pre>                                          # pre-release
          [-_\.]?
          (?P<pre_l>alpha|a|beta|b|preview|pre|c|rc)
          [-_\.]?
          (?P<pre_n>[0-9]+)?
      )?
      (?P<post>                                         # post release
          (?:-(?P<post_n1>[0-9]+))
          |
          (?:
              [-_\.]?
              (?P<post_l>post|rev|r)
              [-_\.]?
              (?P<post_n2>[0-9]+)?
          )
      )?
      (?P<dev>                                          # dev release
          [-_\.]?
          (?P<dev_l>dev)
          [-_\.]?
          (?P<dev_n>[0-9]+)?
      )?
  )
  (?:\+(?P<local>[a-z0-9]+(?:[-_\.][a-z0-9]+)*))?       # local version
  \<close>
  The release group is kept as the list of its segments (\<^verbatim>\<open>release.split(".")\<close>) and
  the local group as the list of its parts (split at \<^verbatim>\<open>[\._-]\<close>).
\<close>

text \<open>The groups of a match: epoch, release, (pre_l, pre_n), (post_l, post_n1 or post_n2),
  (dev_l, dev_n), local.\<close>

type_synonym letter_group = "string \<times> string option"

type_synonym version_groups =
  "string option \<times> string list \<times> letter_group option \<times>
   (string option \<times> string option) option \<times> letter_group option \<times> string list option"

definition epoch_group :: "string regex" where
  "epoch_group = seq (class_plus is_digit) (\<lambda>e. seq (lit ''!'') (\<lambda>_. ret e))"

definition release_group :: "string list regex" where
  "release_group =
     seq (class_plus is_digit) (\<lambda>d.
     seq (sep_plus_star (\<lambda>c. c = CHR ''.'') is_digit) (\<lambda>ds. ret (d # ds)))"

definition letter_group :: "string list \<Rightarrow> letter_group regex" where
  "letter_group letters =
     seq (opt (one is_sep)) (\<lambda>_.
     seq (alt letters) (\<lambda>l.
     seq (opt (one is_sep)) (\<lambda>_.
     seq (opt (class_plus is_digit)) (\<lambda>n. ret (l, n)))))"

definition pre_group :: "letter_group regex" where
  "pre_group = letter_group [''alpha'', ''a'', ''beta'', ''b'', ''preview'', ''pre'', ''c'', ''rc'']"

definition post_group :: "(string option \<times> string option) regex" where
  "post_group s =
     seq (lit ''-'') (\<lambda>_. seq (class_plus is_digit) (\<lambda>n. ret (None, Some n))) s
     @ seq (letter_group [''post'', ''rev'', ''r'']) (\<lambda>(l, n). ret (Some l, n)) s"

definition dev_group :: "letter_group regex" where
  "dev_group = letter_group [''dev'']"

definition local_group :: "string list regex" where
  "local_group =
     seq (lit ''+'') (\<lambda>_.
     seq (class_plus is_alnum) (\<lambda>p.
     seq (sep_plus_star is_sep is_alnum) (\<lambda>ps. ret (p # ps))))"

definition end_of_string :: "unit regex" where
  "end_of_string s = (if s = [] then [((), s)] else [])"

definition version_regex :: "version_groups regex" where
  "version_regex =
     seq (class_star is_space) (\<lambda>_.
     seq (opt (lit ''v'')) (\<lambda>_.
     seq (opt epoch_group) (\<lambda>epoch.
     seq release_group (\<lambda>release.
     seq (opt pre_group) (\<lambda>pre.
     seq (opt post_group) (\<lambda>post.
     seq (opt dev_group) (\<lambda>dev.
     seq (opt local_group) (\<lambda>loc.
     seq (class_star is_space) (\<lambda>_.
     seq end_of_string (\<lambda>_. ret (epoch, release, pre, post, dev, loc)))))))))))"

definition regex_search :: "string \<Rightarrow> version_groups option" where
  "regex_search s = (case version_regex s of [] \<Rightarrow> None | (g, r) # _ \<Rightarrow> Some g)"


text \<open>
  \<^verbatim>\<open>int\<close> of a string of decimal digits. Since Python 3.11 the conversion raises
  \<^verbatim>\<open>ValueError\<close> when the string has more than \<^verbatim>\<open>sys.get_int_max_str_digits()\<close> digits,
  4300 unless the interpreter is configured otherwise; leading zeros count.
\<close>

definition max_str_digits :: nat where
  "max_str_digits = 4300"

definition digits_value :: "string \<Rightarrow> nat" where
  "digits_value ds = foldl (\<lambda>n c. 10 * n + (of_char c - of_char CHR ''0'')) 0 ds"

definition int_of_digits :: "string \<Rightarrow> error + nat" where
  "int_of_digits ds =
     (if max_str_digits < length ds then Inl (ValueError ds) else Inr (digits_value ds))"

text \<open>The results of a sequence of evaluations, or the first exception among them; and
  the continuation of an evaluation that did not raise.\<close>

fun collect :: "(error + 'a) list \<Rightarrow> error + 'a list" where
  "collect [] = Inr []"
| "collect (x # xs) =
     (case x of
        Inl e \<Rightarrow> Inl e
      | Inr y \<Rightarrow> (case collect xs of Inl e \<Rightarrow> Inl e | Inr ys \<Rightarrow> Inr (y # ys)))"

definition and_then :: "error + 'a \<Rightarrow> ('a \<Rightarrow> error + 'b) \<Rightarrow> error + 'b" where
  "and_then x f = (case x of Inl e \<Rightarrow> Inl e | Inr y \<Rightarrow> f y)"

definition parse_letter_version ::
  "string option \<Rightarrow> string option \<Rightarrow> error + (string \<times> nat) option" where
  "parse_letter_version letter number =
     (case letter of
        Some l \<Rightarrow>
          (let l1 = map lower l;
               l2 = (if l1 = ''alpha'' then ''a''
                     else if l1 = ''beta'' then ''b''
                     else if l1 \<in> set [''c'', ''pre'', ''preview''] then ''rc''
                     else if l1 \<in> set [''rev'', ''r''] then ''post''
                     else l1)
           in and_then (case number of None \<Rightarrow> Inr 0 | Some n \<Rightarrow> int_of_digits n)
                (\<lambda>k. Inr (Some (l2, k))))
      | None \<Rightarrow>
          (case number of
             Some n \<Rightarrow> and_then (int_of_digits n) (\<lambda>k. Inr (Some (''post'', k)))
           | None \<Rightarrow> Inr None))"

datatype local_part = LocalInt nat | LocalStr string

definition parse_local_version :: "string list option \<Rightarrow> error + local_part list option" where
  "parse_local_version loc =
     (case loc of
        None \<Rightarrow> Inr None
      | Some parts \<Rightarrow>
          and_then
            (collect (map (\<lambda>part. if list_all is_digit part
                                   then and_then (int_of_digits part) (\<lambda>n. Inr (LocalInt n))
                                   else Inr (LocalStr (map lower part))) parts))
            (\<lambda>ps. Inr (Some ps)))"

text \<open>The comparison key. \<^verbatim>\<open>NegativeInfinity\<close> is below and \<^verbatim>\<open>Infinity\<close> above every
  tuple, so a component that is one of them or a tuple \<open>(letter, number)\<close> is the
  triple of a tag (0, 1 or 2), the letter and the number; tuples compare
  lexicographically, as the product and list orders do.\<close>

type_synonym cmp_part = "nat \<times> string \<times> nat"

type_synonym CmpKey =
  "nat \<times> nat list \<times> cmp_part \<times> cmp_part \<times> cmp_part \<times> nat \<times> (nat \<times> nat \<times> string) list"

definition NegativeInfinity :: cmp_part where
  "NegativeInfinity = (0, [], 0)"

definition Infinity :: cmp_part where
  "Infinity = (2, [], 0)"

definition tuple_part :: "string \<times> nat \<Rightarrow> cmp_part" where
  "tuple_part p = (1, fst p, snd p)"

definition cmpkey ::
  "nat \<Rightarrow> nat list \<Rightarrow> (string \<times> nat) option \<Rightarrow> (string \<times> nat) option \<Rightarrow>
   (string \<times> nat) option \<Rightarrow> local_part list option \<Rightarrow> CmpKey" where
  "cmpkey epoch release pre post dev loc =
     (let release' = rev (dropWhile (\<lambda>x. x = 0) (rev release));
          pre' = (if pre = None \<and> post = None \<and> dev \<noteq> None then NegativeInfinity
                  else case pre of None \<Rightarrow> Infinity | Some p \<Rightarrow> tuple_part p);
          post' = (case post of None \<Rightarrow> NegativeInfinity | Some p \<Rightarrow> tuple_part p);
          dev' = (case dev of None \<Rightarrow> Infinity | Some p \<Rightarrow> tuple_part p);
          loc' = (case loc of
                    None \<Rightarrow> (0, [])
                  | Some parts \<Rightarrow>
                      (1, map (\<lambda>i. case i of LocalInt n \<Rightarrow> (1, n, [])
                                             | LocalStr w \<Rightarrow> (0, 0, w)) parts))
      in (epoch, release', pre', post', dev', loc'))"

text \<open>
  \<^verbatim>\<open>Version.__init__\<close>: the search, then the conversions of the groups in the order
  epoch, release, pre, post, dev, local (the first \<^verbatim>\<open>ValueError\<close> of an \<^verbatim>\<open>int\<close> leaves
  the constructor), then the key.
\<close>

definition packaging_Version :: "string \<Rightarrow> error + CmpKey" where
  "packaging_Version v =
     (case regex_search v of
        None \<Rightarrow> Inl (InvalidVersion v)
      | Some (epoch, release, pre, post, dev, loc) \<Rightarrow>
          and_then (case epoch of None \<Rightarrow> Inr 0 | Some e \<Rightarrow> int_of_digits e) (\<lambda>epoch'.
          and_then (collect (map int_of_digits release)) (\<lambda>release'.
          and_then (case pre of None \<Rightarrow> Inr None
                    | Some (l, n) \<Rightarrow> parse_letter_version (Some l) n) (\<lambda>pre'.
          and_then (case post of None \<Rightarrow> Inr None
                    | Some (l, n) \<Rightarrow> parse_letter_version l n) (\<lambda>post'.
          and_then (case dev of None \<Rightarrow> Inr None
                    | Some (l, n) \<Rightarrow> parse_letter_version (Some l) n) (\<lambda>dev'.
          and_then (parse_local_version loc) (\<lambda>loc'.
          Inr (cmpkey epoch' release' pre' post' dev' loc'))))))))"

section \<open>The code/name index: \<^verbatim>\<open>_update_all_codes\<close>\<close>

text \<open>
  \<^verbatim>\<open>
  codes_and_names = [
      {'code': product.code, 'name': product.name}
      for product in products
  ]
  codes_and_names.sort(key = lambda product: product['code'])
  \<close>
  The value given to \<^verbatim>\<open>json.dump\<close>; an object \<^verbatim>\<open>{'code': c, 'name': n}\<close> is the pair
  \<open>(c, n)\<close>. \<^verbatim>\<open>list.sort\<close> is stable, as the insertion sort \<open>sort_key\<close> is, and
  Python compares strings by code points, which is the order of their UTF-8 bytes.
\<close>

definition update_all_codes :: "Product list \<Rightarrow> (string \<times> string) list" where
  "update_all_codes products =
     sort_key fst (map (\<lambda>product. (code product, name product)) products)"

section \<open>The grouped view: \<^verbatim>\<open>_update_json\<close>\<close>

text \<open>
  \<^verbatim>\<open>json.loads(release.model_dump_json())\<close>: the object with the fields of the release
  in the order of their declaration; a build that is \<^verbatim>\<open>None\<close> becomes \<^verbatim>\<open>null\<close> and the
  date its ISO 8601 form \<^verbatim>\<open>YYYY-MM-DD\<close> (the year of a \<^verbatim>\<open>datetime.date\<close> is at most
  9999, its month and day have at most two digits).
\<close>

datatype json = JNull | JString string

type_synonym json_object = "(string \<times> json) list"

definition digit_char :: "nat \<Rightarrow> char" where
  "digit_char n = ''0123456789'' ! n"

definition two_digits :: "nat \<Rightarrow> string" where
  "two_digits n = [digit_char (n div 10 mod 10), digit_char (n mod 10)]"

definition four_digits :: "nat \<Rightarrow> string" where
  "four_digits n =
     [digit_char (n div 1000 mod 10), digit_char (n div 100 mod 10),
      digit_char (n div 10 mod 10), digit_char (n mod 10)]"

definition isoformat :: "Date \<Rightarrow> string" where
  "isoformat d = four_digits (year d) @ ''-'' @ two_digits (month d) @ ''-'' @ two_digits (day d)"

definition release_as_json :: "Release \<Rightarrow> json_object" where
  "release_as_json release =
     [(''version'', JString (version release)),
      (''build'', case build release of None \<Rightarrow> JNull | Some b \<Rightarrow> JString b),
      (''date'', JString (isoformat (date release)))]"

text \<open>
  \<^verbatim>\<open>
  code_to_releases: dict[IDECode, list[Release]] = defaultdict(list)
  for code, release in ides.releases:
      release_as_json = release.model_dump_json()
      code_to_releases[code.name].append(json.loads(release_as_json))
  \<close>
  Subscripting a \<^verbatim>\<open>defaultdict(list)\<close> with a missing key inserts the key with an empty
  list; \<^verbatim>\<open>append\<close> then extends the list stored at the key.
\<close>

definition json_step ::
  "(string \<times> json_object list) list \<Rightarrow> IDECode \<times> Release \<Rightarrow> (string \<times> json_object list) list" where
  "json_step code_to_releases cr =
     (case cr of (c, release) \<Rightarrow>
        (let d = (if IDECode_name c \<in> set (map fst code_to_releases) then code_to_releases
                  else AList.update (IDECode_name c) [] code_to_releases)
         in AList.map_entry (IDECode_name c) (\<lambda>l. l @ [release_as_json release]) d))"

definition update_json :: "IDEList \<Rightarrow> error + (string \<times> json_object list) list" where
  "update_json ides =
     (case IDEList_releases ides of
        Inl e \<Rightarrow> Inl e
      | Inr crs \<Rightarrow> Inr (foldl json_step [] crs))"

section \<open>The filter of \<^verbatim>\<open>main\<close>\<close>

text \<open>
  \<^verbatim>\<open>
  ides = IDEList([
      product for product in products
      if IDECode.get(product.code) is not None
  ])
  \<close>
\<close>

fun main_ides :: "Product list \<Rightarrow> error + IDEList" where
  "main_ides [] = Inr []"
| "main_ides (product # products) =
     (case IDECode_get (code product) of
        Inl e \<Rightarrow> Inl e
      | Inr g \<Rightarrow>
          (case main_ides products of
             Inl e \<Rightarrow> Inl e
           | Inr ides \<Rightarrow> Inr (if g \<noteq> None then product # ides else ides)))"

section \<open>Notions used in the statements\<close>

text \<open>The cell of a table at a version and a member: \<^verbatim>\<open>table[v][c]\<close> when both keys
  are present.\<close>

definition cell :: "table \<Rightarrow> string \<Rightarrow> IDECode \<Rightarrow> string option option" where
  "cell t v c = (case map_of t v of None \<Rightarrow> None | Some r \<Rightarrow> map_of r c)"

text \<open>The build of the last pair of the input with the given member and version whose
  build is present.\<close>

definition last_build :: "(IDECode \<times> Release) list \<Rightarrow> IDECode \<Rightarrow> string \<Rightarrow> string option" where
  "last_build crs c v =
     (case filter (\<lambda>cr. fst cr = c \<and> version (snd cr) = v \<and> build (snd cr) \<noteq> None) crs of
        [] \<Rightarrow> None
      | x # xs \<Rightarrow> build (snd (last (x # xs))))"

text \<open>What the loop maintains: the keys of the table and of every row are distinct, no
  row is empty and no stored build is \<^verbatim>\<open>None\<close>.\<close>

definition table_inv :: "table \<Rightarrow> bool" where
  "table_inv t \<longleftrightarrow>
     distinct (map fst t) \<and>
     (\<forall>vr \<in> set t. snd vr \<noteq> [] \<and> distinct (map fst (snd vr)) \<and> (\<forall>cb \<in> set (snd vr). snd cb \<noteq> None))"

text \<open>The elements of a list in the order of their first occurrence, after those already
  seen: the order in which a \<^verbatim>\<open>dict\<close> receives its keys.\<close>

fun first_seen :: "'a list \<Rightarrow> 'a list \<Rightarrow> 'a list" where
  "first_seen seen [] = seen"
| "first_seen seen (x # xs) = first_seen (if x \<in> set seen then seen else seen @ [x]) xs"

text \<open>The comparison of two raw strings by their keys; it is false when one of them has
  no key.\<close>

definition version_ge :: "(string \<Rightarrow> error + 'k::linorder) \<Rightarrow> string \<Rightarrow> string \<Rightarrow> bool" where
  "version_ge V v1 v2 = (case (V v1, V v2) of (Inr k1, Inr k2) \<Rightarrow> k2 \<le> k1 | _ \<Rightarrow> False)"

definition version_gt :: "(string \<Rightarrow> error + 'k::linorder) \<Rightarrow> string \<Rightarrow> string \<Rightarrow> bool" where
  "version_gt V v1 v2 = (case (V v1, V v2) of (Inr k1, Inr k2) \<Rightarrow> k2 < k1 | _ \<Rightarrow> False)"

text \<open>The \<^verbatim>\<open>ValueError\<close> of \<^verbatim>\<open>int\<close> on a string with too many digits.\<close>

definition digit_limit_error :: "error \<Rightarrow> bool" where
  "digit_limit_error e = (case e of ValueError ds \<Rightarrow> max_str_digits < length ds | _ \<Rightarrow> False)"

text \<open>The input without the releases that have no build.\<close>

definition without_absent_builds :: "IDEList \<Rightarrow> IDEList" where
  "without_absent_builds ides =
     map (\<lambda>p. p\<lparr>releases := filter (\<lambda>r. build r \<noteq> None) (releases p)\<rparr>) ides"

subsection \<open>Example inputs\<close>

text \<open>The example of the specification: two releases of IIU and one release of IIC that
  has no build.\<close>

definition example_ides :: IDEList where
  "example_ides =
     [\<lparr>code = ''IIU'', name = ''IntelliJ IDEA Ultimate'', releases =
         [\<lparr>version = ''2023.3'', build = Some ''233.100'', date = \<lparr>year = 2023, month = 11, day = 1\<rparr>\<rparr>,
          \<lparr>version = ''2024.1'', build = Some ''241.1'', date = \<lparr>year = 2024, month = 2, day = 1\<rparr>\<rparr>]\<rparr>,
      \<lparr>code = ''IIC'', name = ''IntelliJ IDEA Community Edition'', releases =
         [\<lparr>version = ''2023.3'', build = None, date = \<lparr>year = 2023, month = 11, day = 1\<rparr>\<rparr>]\<rparr>]"

definition example_pairs :: "(IDECode \<times> Release) list" where
  "example_pairs =
     [(IIU, \<lparr>version = ''2023.3'', build = Some ''233.100'', date = \<lparr>year = 2023, month = 11, day = 1\<rparr>\<rparr>),
      (IIU, \<lparr>version = ''2024.1'', build = Some ''241.1'', date = \<lparr>year = 2024, month = 2, day = 1\<rparr>\<rparr>),
      (IIC, \<lparr>version = ''2023.3'', build = None, date = \<lparr>year = 2023, month = 11, day = 1\<rparr>\<rparr>)]"

definition example_matrix :: table where
  "example_matrix = [(''2024.1'', [(IIU, Some ''241.1'')]), (''2023.3'', [(IIU, Some ''233.100'')])]"

text \<open>One product with the same version twice, with two builds.\<close>

definition duplicate_ides :: IDEList where
  "duplicate_ides =
     [\<lparr>code = ''IIU'', name = ''IntelliJ IDEA Ultimate'', releases =
         [\<lparr>version = ''2024.1'', build = Some ''241.1'', date = \<lparr>year = 2024, month = 2, day = 1\<rparr>\<rparr>,
          \<lparr>version = ''2024.1'', build = Some ''241.2'', date = \<lparr>year = 2024, month = 3, day = 1\<rparr>\<rparr>]\<rparr>]"

definition duplicate_pairs :: "(IDECode \<times> Release) list" where
  "duplicate_pairs =
     [(IIU, \<lparr>version = ''2024.1'', build = Some ''241.1'', date = \<lparr>year = 2024, month = 2, day = 1\<rparr>\<rparr>),
      (IIU, \<lparr>version = ''2024.1'', build = Some ''241.2'', date = \<lparr>year = 2024, month = 3, day = 1\<rparr>\<rparr>)]"

text \<open>Versions whose order as strings differs from their order as versions.\<close>

definition ordering_ides :: IDEList where
  "ordering_ides =
     [\<lparr>code = ''PCP'', name = ''PyCharm Professional Edition'', releases =
         [\<lparr>version = ''2024.9'', build = Some ''249.1'', date = \<lparr>year = 2024, month = 9, day = 1\<rparr>\<rparr>,
          \<lparr>version = ''2023.3.1'', build = Some ''233.2'', date = \<lparr>year = 2023, month = 12, day = 1\<rparr>\<rparr>,
          \<lparr>version = ''2024.10'', build = Some ''2410.1'', date = \<lparr>year = 2024, month = 10, day = 1\<rparr>\<rparr>]\<rparr>]"

definition ordering_pairs :: "(IDECode \<times> Release) list" where
  "ordering_pairs =
     [(PCP, \<lparr>version = ''2024.9'', build = Some ''249.1'', date = \<lparr>year = 2024, month = 9, day = 1\<rparr>\<rparr>),
      (PCP, \<lparr>version = ''2023.3.1'', build = Some ''233.2'', date = \<lparr>year = 2023, month = 12, day = 1\<rparr>\<rparr>),
      (PCP, \<lparr>version = ''2024.10'', build = Some ''2410.1'', date = \<lparr>year = 2024, month = 10, day = 1\<rparr>\<rparr>)]"

text \<open>Two different strings that denote the same version.\<close>

definition same_version_ides :: IDEList where
  "same_version_ides =
     [\<lparr>code = ''IIU'', name = ''IntelliJ IDEA Ultimate'', releases =
         [\<lparr>version = ''2024.1'', build = Some ''241.1'', date = \<lparr>year = 2024, month = 2, day = 1\<rparr>\<rparr>,
          \<lparr>version = ''2024.01'', build = Some ''241.2'', date = \<lparr>year = 2024, month = 3, day = 1\<rparr>\<rparr>]\<rparr>]"

text \<open>A version that is no version.\<close>

definition latest_ides :: IDEList where
  "latest_ides =
     [\<lparr>code = ''IIU'', name = ''IntelliJ IDEA Ultimate'', releases =
         [\<lparr>version = ''2024.1'', build = Some ''241.1'', date = \<lparr>year = 2024, month = 2, day = 1\<rparr>\<rparr>,
          \<lparr>version = ''latest'', build = Some ''999.1'', date = \<lparr>year = 2024, month = 3, day = 1\<rparr>\<rparr>]\<rparr>]"

definition latest_pairs :: "(IDECode \<times> Release) list" where
  "latest_pairs =
     [(IIU, \<lparr>version = ''2024.1'', build = Some ''241.1'', date = \<lparr>year = 2024, month = 2, day = 1\<rparr>\<rparr>),
      (IIU, \<lparr>version = ''latest'', build = Some ''999.1'', date = \<lparr>year = 2024, month = 3, day = 1\<rparr>\<rparr>)]"

text \<open>The releases of a member in the input: those of the products whose code is the
  name of the member, in the order of the input.\<close>

definition releases_of :: "IDEList \<Rightarrow> IDECode \<Rightarrow> Release list" where
  "releases_of ides c = concat (map releases (filter (\<lambda>p. code p = IDECode_name c) ides))"

text \<open>A date that \<^verbatim>\<open>datetime.date\<close> can hold, as far as the number of digits goes.\<close>

definition date_in_range :: "Date \<Rightarrow> bool" where
  "date_in_range d \<longleftrightarrow> year d < 10000 \<and> month d < 100 \<and> day d < 100"

definition two_codes :: "Product list" where
  "two_codes =
     [\<lparr>code = ''XX'', name = ''First'', releases = []\<rparr>,
      \<lparr>code = ''AA'', name = ''Other'', releases = []\<rparr>,
      \<lparr>code = ''XX'', name = ''Second'', releases = []\<rparr>]"



definition unknown_ides :: IDEList where
  "unknown_ides =
     [\<lparr>code = ''IIU'', name = ''IntelliJ IDEA Ultimate'', releases =
         [\<lparr>version = ''2024.1'', build = Some ''241.1'', date = \<lparr>year = 2024, month = 2, day = 1\<rparr>\<rparr>]\<rparr>,
      \<lparr>code = ''XX'', name = ''Unknown'', releases =
         [\<lparr>version = ''1.0'', build = None, date = \<lparr>year = 2020, month = 1, day = 1\<rparr>\<rparr>]\<rparr>]"

text \<open>The grouped view of the example of the specification.\<close>

definition example_grouped :: "(string \<times> json_object list) list" where
  "example_grouped =
     [(''IIU'',
        [[(''version'', JString ''2023.3''), (''build'', JString ''233.100''), (''date'', JString ''2023-11-01'')],
         [(''version'', JString ''2024.1''), (''build'', JString ''241.1''), (''date'', JString ''2024-02-01'')]]),
      (''IIC'',
        [[(''version'', JString ''2023.3''), (''build'', JNull), (''date'', JString ''2023-11-01'')]])]"

text \<open>One product with a known code and no release.\<close>

definition no_release_ides :: IDEList where
  "no_release_ides = [\<lparr>code = ''CL'', name = ''CLion'', releases = []\<rparr>]"

text \<open>One product with an unknown code and no release.\<close>

definition empty_unknown_ides :: IDEList where
  "empty_unknown_ides = [\<lparr>code = ''XX'', name = ''Unknown'', releases = []\<rparr>]"

text \<open>The string of dot-separated segments.\<close>

fun dotted :: "string list \<Rightarrow> string" where
  "dotted [] = []"
| "dotted [seg] = seg"
| "dotted (seg # segs) = seg @ CHR ''.'' # dotted segs"

text \<open>One or more decimal digits; and a segment of a dotted-numeric version: one or
  more decimal digits, no more of them than \<^verbatim>\<open>int\<close> converts.\<close>

definition decimal_digits :: "string \<Rightarrow> bool" where
  "decimal_digits seg \<longleftrightarrow> seg \<noteq> [] \<and> list_all is_digit seg"

definition digit_segment :: "string \<Rightarrow> bool" where
  "digit_segment seg \<longleftrightarrow> decimal_digits seg \<and> length seg \<le> max_str_digits"

text \<open>The rest of a dotted string after its first segment.\<close>

definition dotted_tail :: "string list \<Rightarrow> string" where
  "dotted_tail segs = concat (map (\<lambda>seg. CHR ''.'' # seg) segs)"

text \<open>The integers of the segments without the trailing zeros.\<close>

definition segment_key :: "string list \<Rightarrow> nat list" where
  "segment_key segs = rev (dropWhile (\<lambda>x. x = 0) (rev (map digits_value segs)))"

text \<open>A version of dot-separated segments of decimal digits.\<close>

definition dotted_numeric :: "string \<Rightarrow> string list \<Rightarrow> bool" where
  "dotted_numeric v segs \<longleftrightarrow> segs \<noteq> [] \<and> list_all digit_segment segs \<and> v = dotted segs"

section \<open>The registry lookup\<close>

lemma map_of_members: "map_of members s = Some m \<longleftrightarrow> IDECode_name m = s"
  by (cases m) (auto simp: members_def IDECode_members_def)

lemma IDECode_getitem_name: "IDECode_getitem (IDECode_name m) = Inr m"
  using map_of_members [of "IDECode_name m" m] by (simp add: IDECode_getitem_def)

lemma IDECode_name_inject: "IDECode_name m = IDECode_name m' \<longleftrightarrow> m = m'"
proof
  assume eq: "IDECode_name m = IDECode_name m'"
  have "IDECode_getitem (IDECode_name m) = IDECode_getitem (IDECode_name m')"
    by (simp only: eq)
  then show "m = m'"
    by (simp only: IDECode_getitem_name sum.inject)
qed simp

lemma IDECode_getitem_Inr: "IDECode_getitem s = Inr m \<longleftrightarrow> IDECode_name m = s"
  using map_of_members [of s m]
  by (auto simp: IDECode_getitem_def split: option.splits)

lemma IDECode_getitem_Inl:
  "IDECode_getitem s = Inl e \<longleftrightarrow> (e = KeyError s \<and> (\<forall>m. IDECode_name m \<noteq> s))"
proof (cases "map_of members s")
  case None
  have "IDECode_name m \<noteq> s" for m
    using map_of_members [of s m] None by auto
  with None show ?thesis by (auto simp: IDECode_getitem_def)
next
  case (Some m)
  then show ?thesis
    using map_of_members [of s m] by (auto simp: IDECode_getitem_def)
qed

text \<open>
  C9. For every string, \<^verbatim>\<open>IDECode.get\<close> returns normally: it returns the member whose
  name is the string when there is one, and \<^verbatim>\<open>None\<close> when the string names no member.
  No input makes it raise.
\<close>

theorem IDECode_get_never_raises:
  "(\<exists>r. IDECode_get s = Inr r) \<and>
   (\<forall>m. IDECode_name m = s \<longrightarrow> IDECode_get s = Inr (Some m)) \<and>
   ((\<forall>m. IDECode_name m \<noteq> s) \<longrightarrow> IDECode_get s = Inr None)"
proof (cases "IDECode_getitem s")
  case (Inl e)
  then have "e = KeyError s" and "\<forall>m. IDECode_name m \<noteq> s"
    by (simp_all add: IDECode_getitem_Inl)
  with Inl show ?thesis by (simp add: IDECode_get_def)
next
  case (Inr m)
  then have "IDECode_name m = s" by (simp add: IDECode_getitem_Inr)
  with Inr show ?thesis
    by (auto simp: IDECode_get_def IDECode_name_inject)
qed

theorem IDECode_get_never_raises_witness:
  "IDECode_get ''PCP'' = Inr (Some PCP) \<and> IDECode_get ''XX'' = Inr None"
proof -
  have a: "IDECode_name PCP = ''PCP''" by simp
  have b: "\<forall>m. IDECode_name m \<noteq> ''XX''"
  proof
    fix m show "IDECode_name m \<noteq> ''XX''" by (cases m) simp_all
  qed
  from IDECode_get_never_raises [of "''PCP''"] a
  have "IDECode_get ''PCP'' = Inr (Some PCP)" by blast
  moreover from IDECode_get_never_raises [of "''XX''"] b
  have "IDECode_get ''XX'' = Inr None" by blast
  ultimately show ?thesis by simp
qed

section \<open>The loop of the aggregator\<close>

lemma table_step_None: "build r = None \<Longrightarrow> table_step t (c, r) = Inr t"
  by (simp add: table_step_def)

lemma map_of_None_keys: "map_of t k = None \<longleftrightarrow> k \<notin> set (map fst t)"
  by (simp add: map_of_eq_None_iff)

lemma table_step_Some:
  assumes "build r = Some b"
  shows "table_step t (c, r) =
          Inr (AList.update (version r)
                (AList.update c (Some b) (case map_of t (version r) of None \<Rightarrow> [] | Some row \<Rightarrow> row)) t)"
proof (cases "map_of t (version r)")
  case None
  then have "version r \<notin> set (map fst t)" by (simp add: map_of_None_keys)
  with None assms show ?thesis
    by (simp add: table_step_def AList.update_conv')
next
  case (Some row)
  then have "version r \<in> set (map fst t)"
    using map_of_None_keys [of t "version r"] by auto
  with Some assms show ?thesis
    by (simp add: table_step_def)
qed

lemma table_loop_total: "\<exists>t'. table_loop crs t = Inr t'"
proof (induction crs arbitrary: t)
  case Nil
  then show ?case by simp
next
  case (Cons cr crs)
  obtain c r where cr: "cr = (c, r)" by (cases cr)
  show ?case
  proof (cases "build r")
    case None
    with cr Cons show ?thesis by (simp add: table_step_None)
  next
    case (Some b)
    with cr Cons show ?thesis by (simp add: table_step_Some)
  qed
qed

lemma cell_update:
  "cell (AList.update v (AList.update c x (case map_of t v of None \<Rightarrow> [] | Some row \<Rightarrow> row)) t) v' c' =
     (if v' = v \<and> c' = c then Some x else cell t v' c')"
  by (auto simp: cell_def AList.update_conv' split: option.splits)

lemma table_step_cell:
  "table_step t (c, r) = Inr t' \<Longrightarrow>
   cell t' v' c' = (if version r = v' \<and> c = c' \<and> build r \<noteq> None then Some (build r) else cell t v' c')"
proof (cases "build r")
  case None
  assume "table_step t (c, r) = Inr t'"
  with None show ?thesis by (simp add: table_step_None)
next
  case (Some b)
  assume "table_step t (c, r) = Inr t'"
  with Some show ?thesis by (auto simp: table_step_Some cell_update)
qed

lemma last_build_Nil: "last_build [] c v = None"
  by (simp add: last_build_def)

lemma last_build_Cons:
  "last_build (cr # crs) c v =
     (case last_build crs c v of
        Some b \<Rightarrow> Some b
      | None \<Rightarrow> if fst cr = c \<and> version (snd cr) = v then build (snd cr) else None)"
proof -
  let ?P = "\<lambda>cr. fst cr = c \<and> version (snd cr) = v \<and> build (snd cr) \<noteq> None"
  show ?thesis
  proof (cases "filter ?P crs")
    case Nil
    then show ?thesis by (auto simp: last_build_def)
  next
    case (Cons x xs)
    then have "last (x # xs) \<in> set (filter ?P crs)"
      by (metis last_in_set list.distinct(1))
    then have "build (snd (last (x # xs))) \<noteq> None" by simp
    with Cons show ?thesis by (auto simp: last_build_def)
  qed
qed

lemma table_loop_cell:
  "table_loop crs t = Inr t' \<Longrightarrow>
   cell t' v c = (case last_build crs c v of None \<Rightarrow> cell t v c | Some b \<Rightarrow> Some (Some b))"
proof (induction crs arbitrary: t)
  case Nil
  then show ?case by (simp add: last_build_Nil)
next
  case (Cons cr crs)
  obtain c0 r where cr: "cr = (c0, r)" by (cases cr)
  obtain t1 where t1: "table_step t (c0, r) = Inr t1"
    using table_loop_total [of "[(c0, r)]" t] by (auto split: sum.splits)
  with Cons.prems cr have "table_loop crs t1 = Inr t'" by simp
  from Cons.IH [OF this] table_step_cell [OF t1, of v c] cr
  show ?case
    by (auto simp: last_build_Cons split: option.splits)
qed

lemma set_update_subset: "set (AList.update k v al) \<subseteq> insert (k, v) (set al)"
  by (induction al) auto

lemma table_step_keys:
  "table_step t (c, r) = Inr t' \<Longrightarrow>
   map fst t' = (if build r = None \<or> version r \<in> set (map fst t) then map fst t
                 else map fst t @ [version r])"
proof (cases "build r")
  case None
  assume "table_step t (c, r) = Inr t'"
  with None show ?thesis by (simp add: table_step_None)
next
  case (Some b)
  assume "table_step t (c, r) = Inr t'"
  with Some show ?thesis
    by (force simp: table_step_Some AList.update_keys)
qed

lemma table_step_inv:
  assumes "table_step t (c, r) = Inr t'" and "table_inv t"
  shows "table_inv t'"
proof (cases "build r")
  case None
  with assms show ?thesis by (simp add: table_step_None)
next
  case (Some b)
  define row where "row = (case map_of t (version r) of None \<Rightarrow> [] | Some row \<Rightarrow> row)"
  define row' where "row' = AList.update c (Some b) row"
  from Some assms(1) have t': "t' = AList.update (version r) row' t"
    by (simp add: table_step_Some row_def row'_def)
  have row: "distinct (map fst row) \<and> (\<forall>cb \<in> set row. snd cb \<noteq> None)"
  proof (cases "map_of t (version r)")
    case None
    then show ?thesis by (simp add: row_def)
  next
    case (Some x)
    then have "(version r, x) \<in> set t" by (rule map_of_SomeD)
    with assms(2) have "distinct (map fst x) \<and> (\<forall>cb \<in> set x. snd cb \<noteq> None)"
      unfolding table_inv_def by fastforce
    with Some show ?thesis by (simp add: row_def)
  qed
  have "\<forall>cb \<in> set row'. snd cb \<noteq> None"
  proof
    fix cb assume "cb \<in> set row'"
    then have "cb = (c, Some b) \<or> cb \<in> set row"
      using set_update_subset [of c "Some b" row] unfolding row'_def by blast
    with row show "snd cb \<noteq> None" by auto
  qed
  with row have row': "row' \<noteq> [] \<and> distinct (map fst row') \<and> (\<forall>cb \<in> set row'. snd cb \<noteq> None)"
    by (simp add: row'_def AList.distinct_update)
  have "distinct (map fst t')"
    using assms(2) by (simp add: t' table_inv_def AList.distinct_update)
  moreover have "\<forall>vr \<in> set t'. snd vr \<noteq> [] \<and> distinct (map fst (snd vr)) \<and> (\<forall>cb \<in> set (snd vr). snd cb \<noteq> None)"
  proof
    fix vr assume "vr \<in> set t'"
    then have "vr = (version r, row') \<or> vr \<in> set t"
      using set_update_subset [of "version r" row' t] unfolding t' by blast
    then show "snd vr \<noteq> [] \<and> distinct (map fst (snd vr)) \<and> (\<forall>cb \<in> set (snd vr). snd cb \<noteq> None)"
    proof
      assume "vr = (version r, row')"
      with row' show ?thesis by simp
    next
      assume "vr \<in> set t"
      with assms(2) show ?thesis by (simp add: table_inv_def)
    qed
  qed
  ultimately show ?thesis by (simp add: table_inv_def)
qed

lemma table_loop_inv:
  "table_loop crs t = Inr t' \<Longrightarrow> table_inv t \<Longrightarrow> table_inv t'"
proof (induction crs arbitrary: t)
  case Nil
  then show ?case by simp
next
  case (Cons cr crs)
  obtain c0 r where cr: "cr = (c0, r)" by (cases cr)
  obtain t1 where t1: "table_step t (c0, r) = Inr t1"
    using table_loop_total [of "[(c0, r)]" t] by (auto split: sum.splits)
  with Cons.prems cr have "table_loop crs t1 = Inr t'" by simp
  moreover have "table_inv t1" using t1 Cons.prems(2) by (rule table_step_inv)
  ultimately show ?case by (rule Cons.IH)
qed

lemma table_inv_Nil: "table_inv []"
  by (simp add: table_inv_def)

lemma table_loop_keys:
  "table_loop crs t = Inr t' \<Longrightarrow>
   map fst t' = first_seen (map fst t) (map (\<lambda>cr. version (snd cr)) (filter (\<lambda>cr. build (snd cr) \<noteq> None) crs))"
proof (induction crs arbitrary: t)
  case Nil
  then show ?case by simp
next
  case (Cons cr crs)
  obtain c0 r where cr: "cr = (c0, r)" by (cases cr)
  obtain t1 where t1: "table_step t (c0, r) = Inr t1"
    using table_loop_total [of "[(c0, r)]" t] by (auto split: sum.splits)
  with Cons.prems cr have "table_loop crs t1 = Inr t'" by simp
  from Cons.IH [OF this] table_step_keys [OF t1] cr
  show ?case by auto
qed

lemma set_first_seen: "set (first_seen seen xs) = set seen \<union> set xs"
  by (induction xs arbitrary: seen) auto

lemma table_loop_filter:
  "table_loop (filter (\<lambda>cr. build (snd cr) \<noteq> None) crs) t = table_loop crs t"
proof (induction crs arbitrary: t)
  case Nil
  then show ?case by simp
next
  case (Cons cr crs)
  obtain c0 r where cr: "cr = (c0, r)" by (cases cr)
  show ?case
  proof (cases "build r")
    case None
    with cr Cons show ?thesis by (simp add: table_step_None)
  next
    case (Some b)
    with cr Cons show ?thesis by (simp add: table_step_Some)
  qed
qed

section \<open>The sort of the aggregator\<close>

lemma sort_keys_Inr:
  "sort_keys V t = Inr ks \<Longrightarrow> map snd ks = t \<and> (\<forall>kx \<in> set ks. V (fst (snd kx)) = Inr (fst kx))"
  by (induction t arbitrary: ks) (auto split: sum.splits)

lemma sort_keys_total:
  "\<forall>x \<in> set t. \<exists>k. V (fst x) = Inr k \<Longrightarrow> \<exists>ks. sort_keys V t = Inr ks"
  by (induction t) (auto split: sum.splits)

lemma sort_keys_Inl:
  "sort_keys V t = Inl e \<Longrightarrow>
   \<exists>pre x post. t = pre @ x # post \<and> (\<forall>y \<in> set pre. \<exists>k. V (fst y) = Inr k) \<and> V (fst x) = Inl e"
proof (induction t)
  case Nil
  then show ?case by simp
next
  case (Cons a t)
  show ?case
  proof (cases "V (fst a)")
    case (Inl e')
    with Cons.prems have "e' = e" by simp
    with Inl have "a # t = [] @ a # t \<and> (\<forall>y \<in> set []. \<exists>k. V (fst y) = Inr k) \<and> V (fst a) = Inl e"
      by simp
    then show ?thesis by blast
  next
    case (Inr k)
    with Cons.prems have "sort_keys V t = Inl e" by (auto split: sum.splits)
    from Cons.IH [OF this] obtain pre x post where
      "t = pre @ x # post" "\<forall>y \<in> set pre. \<exists>k. V (fst y) = Inr k" "V (fst x) = Inl e"
      by blast
    with Inr have "a # t = (a # pre) @ x # post \<and> (\<forall>y \<in> set (a # pre). \<exists>k. V (fst y) = Inr k) \<and> V (fst x) = Inl e"
      by simp
    then show ?thesis by blast
  qed
qed

lemma sort_keys_fails:
  "x \<in> set t \<Longrightarrow> V (fst x) = Inl e \<Longrightarrow> \<exists>e'. sort_keys V t = Inl e'"
  by (induction t) (auto split: sum.splits)

lemma set_sorted_reverse: "set (sorted_reverse ks) = snd ` set ks"
  by (simp add: sorted_reverse_def)

lemma distinct_map_sort_key: "distinct (map f (sort_key g xs)) = distinct (map f xs)"
  by (simp add: distinct_map)

lemma distinct_sorted_reverse:
  "distinct (map f (map snd ks)) \<Longrightarrow> distinct (map f (sorted_reverse ks))"
proof -
  assume "distinct (map f (map snd ks))"
  then have "distinct (rev (map (f \<circ> snd) ks))" by simp
  then have "distinct (map (f \<circ> snd) (rev ks))" by (simp only: rev_map)
  then have "distinct (map (f \<circ> snd) (sort_key fst (rev ks)))"
    by (simp only: distinct_map_sort_key)
  then have "distinct (rev (map (f \<circ> snd) (sort_key fst (rev ks))))"
    by (simp only: distinct_rev)
  then show ?thesis by (simp add: sorted_reverse_def rev_map)
qed

lemma sorted_reverse_sorted:
  assumes "\<forall>kx \<in> set ks. V (fst (snd kx)) = Inr (fst kx)"
  shows "sorted_wrt (version_ge V) (map fst (sorted_reverse ks))"
proof -
  define ps where "ps = rev (sort_key fst (rev ks))"
  have "sorted (map fst (sort_key fst (rev ks)))" by (rule sorted_sort_key)
  then have "sorted_wrt (\<lambda>x y. y \<le> x) (rev (map fst (sort_key fst (rev ks))))"
    by (simp only: sorted_wrt_rev)
  then have "sorted_wrt (\<lambda>p q. fst q \<le> fst p) ps"
    by (simp add: ps_def rev_map sorted_wrt_map)
  moreover have "set ps = set ks" by (simp add: ps_def)
  moreover have "version_ge V (fst (snd p)) (fst (snd q))"
    if "p \<in> set ps" "q \<in> set ps" "fst q \<le> fst p" for p q
  proof -
    from that assms \<open>set ps = set ks\<close>
    have "V (fst (snd p)) = Inr (fst p)" "V (fst (snd q)) = Inr (fst q)" by auto
    with that(3) show ?thesis by (simp add: version_ge_def)
  qed
  ultimately have "sorted_wrt (\<lambda>p q. version_ge V (fst (snd p)) (fst (snd q))) ps"
    by (auto elim!: sorted_wrt_mono_rel [rotated])
  then show ?thesis
    by (simp add: sorted_reverse_def ps_def sorted_wrt_map)
qed

lemma sorted_reverse_stable:
  assumes "\<forall>kx \<in> set ks. V (fst (snd kx)) = Inr (fst kx)"
  shows "filter (\<lambda>x. V (fst x) = Inr k) (sorted_reverse ks) = filter (\<lambda>x. V (fst x) = Inr k) (map snd ks)"
proof -
  have *: "filter (\<lambda>x. V (fst x) = Inr k) (map snd xs) = map snd (filter (\<lambda>p. fst p = k) xs)"
    if "set xs \<subseteq> set ks" for xs
    using that assms by (induction xs) auto
  have "filter (\<lambda>p. fst p = k) (rev (sort_key fst (rev ks))) = rev (filter (\<lambda>p. fst p = k) (sort_key fst (rev ks)))"
    by (simp add: rev_filter)
  also have "\<dots> = rev (filter (\<lambda>p. fst p = k) (rev ks))"
    by (simp only: sort_key_stable)
  also have "\<dots> = filter (\<lambda>p. fst p = k) ks"
    by (simp add: rev_filter)
  finally show ?thesis
    using * [of ks] * [of "rev (sort_key fst (rev ks))"]
    by (simp add: sorted_reverse_def)
qed

lemma update_fresh: "k \<notin> fst ` set d \<Longrightarrow> AList.update k v d = d @ [(k, v)]"
  by (induction d) auto

lemma foldl_update_distinct:
  "distinct (map fst xs) \<Longrightarrow> fst ` set d \<inter> fst ` set xs = {} \<Longrightarrow>
   foldl (\<lambda>d item. AList.update (fst item) (snd item) d) d xs = d @ xs"
proof (induction xs arbitrary: d)
  case Nil
  then show ?case by simp
next
  case (Cons x xs)
  from Cons.prems have fresh: "fst x \<notin> fst ` set d" by auto
  have "foldl (\<lambda>d item. AList.update (fst item) (snd item) d) (d @ [x]) xs = (d @ [x]) @ xs"
    using Cons.prems by (intro Cons.IH) auto
  with fresh show ?case by (simp add: update_fresh)
qed

lemma dict_of_items_distinct: "distinct (map fst xs) \<Longrightarrow> dict_of_items xs = xs"
  using foldl_update_distinct [of xs "[]"] by (simp add: dict_of_items_def)

section \<open>The iterator and the aggregator as a whole\<close>

lemma product_releases_known:
  "IDECode_getitem c = Inr m \<Longrightarrow> product_releases c rs = Inr (map (Pair m) rs)"
  by (induction rs) auto

lemma product_releases_unknown:
  "IDECode_getitem c = Inl e \<Longrightarrow> product_releases c rs = (if rs = [] then Inr [] else Inl e)"
  by (cases rs) auto

lemma product_releases_filter:
  "product_releases c rs = Inr ys \<Longrightarrow>
   product_releases c (filter (\<lambda>r. build r \<noteq> None) rs) = Inr (filter (\<lambda>cr. build (snd cr) \<noteq> None) ys)"
proof (cases "IDECode_getitem c")
  case (Inl e)
  assume "product_releases c rs = Inr ys"
  with Inl have "rs = []" "ys = []"
    by (auto simp: product_releases_unknown split: if_splits)
  then show ?thesis by simp
next
  case (Inr m)
  assume "product_releases c rs = Inr ys"
  with Inr have "ys = map (Pair m) rs" by (simp add: product_releases_known)
  with Inr show ?thesis by (simp add: product_releases_known filter_map comp_def)
qed

lemma IDEList_releases_filter:
  "IDEList_releases ides = Inr crs \<Longrightarrow>
   IDEList_releases (without_absent_builds ides) = Inr (filter (\<lambda>cr. build (snd cr) \<noteq> None) crs)"
proof (induction ides arbitrary: crs)
  case Nil
  then show ?case by (simp add: without_absent_builds_def)
next
  case (Cons p ides)
  from Cons.prems obtain ys zs where
    ys: "product_releases (code p) (releases p) = Inr ys" and
    zs: "IDEList_releases ides = Inr zs" and crs: "crs = ys @ zs"
    by (auto split: sum.splits)
  from Cons.IH [OF zs] product_releases_filter [OF ys] crs
  show ?case by (simp add: without_absent_builds_def)
qed

lemma IDEList_releases_Inr_iff:
  "(\<exists>crs. IDEList_releases ides = Inr crs) \<longleftrightarrow>
   (\<forall>p \<in> set ides. releases p \<noteq> [] \<longrightarrow> (\<exists>m. IDECode_name m = code p))"
proof (induction ides)
  case Nil
  then show ?case by simp
next
  case (Cons p ides)
  show ?case
  proof (cases "IDECode_getitem (code p)")
    case (Inl e)
    then have "\<forall>m. IDECode_name m \<noteq> code p" by (simp add: IDECode_getitem_Inl)
    with Inl Cons show ?thesis
      by (auto simp: product_releases_unknown split: sum.splits)
  next
    case (Inr m)
    then have "IDECode_name m = code p" by (simp add: IDECode_getitem_Inr)
    with Inr Cons show ?thesis
      by (auto simp: product_releases_known split: sum.splits)
  qed
qed

lemma aggregator_Inr:
  assumes "map_version_to_build_numbers V ides = Inr m"
  obtains crs t ks where
    "IDEList_releases ides = Inr crs" "table_loop crs [] = Inr t"
    "sort_keys V t = Inr ks" "m = sorted_reverse ks"
    "set m = set t" "distinct (map fst m)" "table_inv m"
proof -
  from assms obtain crs t ks where
    crs: "IDEList_releases ides = Inr crs" and t: "table_loop crs [] = Inr t" and
    ks: "sort_keys V t = Inr ks" and m: "m = dict_of_items (sorted_reverse ks)"
    by (auto simp: map_version_to_build_numbers_def split: sum.splits)
  from table_loop_inv [OF t table_inv_Nil] have inv: "table_inv t" .
  from sort_keys_Inr [OF ks] have snd: "map snd ks = t" by simp
  from inv have "distinct (map fst (map snd ks))" by (simp add: snd table_inv_def)
  then have d: "distinct (map fst (sorted_reverse ks))" by (rule distinct_sorted_reverse)
  then have m': "m = sorted_reverse ks" by (simp add: m dict_of_items_distinct)
  have set: "set m = set t"
    using snd by (simp add: m' set_sorted_reverse set_map [symmetric] del: set_map)
  from inv set d have "table_inv m" by (simp add: table_inv_def m')
  with crs t ks m' set d that show thesis by (simp add: m')
qed

lemma aggregator_map_of:
  assumes "map_version_to_build_numbers V ides = Inr m"
    and "IDEList_releases ides = Inr crs" and "table_loop crs [] = Inr t"
  shows "map_of m = map_of t" and "cell m = cell t"
proof -
  from assms(1) obtain crs' t' where
    "IDEList_releases ides = Inr crs'" "table_loop crs' [] = Inr t'"
    "set m = set t'" "distinct (map fst m)"
    by (rule aggregator_Inr)
  with assms(2,3) have "set m = set t" "distinct (map fst m)" by simp_all
  moreover from table_loop_inv [OF assms(3) table_inv_Nil] have "distinct (map fst t)"
    by (simp add: table_inv_def)
  ultimately show "map_of m = map_of t" by (simp add: map_of_inject_set)
  then show "cell m = cell t" by (simp add: cell_def fun_eq_iff)
qed

lemma aggregator_cell:
  assumes "map_version_to_build_numbers V ides = Inr m" and "IDEList_releases ides = Inr crs"
  shows "cell m v c = (case last_build crs c v of None \<Rightarrow> None | Some b \<Rightarrow> Some (Some b))"
proof -
  obtain t where t: "table_loop crs [] = Inr t" using table_loop_total by blast
  have "cell [] v c = None" by (simp add: cell_def)
  with aggregator_map_of(2) [OF assms t] table_loop_cell [OF t, of v c]
  show ?thesis by (simp split: option.splits)
qed

lemma aggregator_total:
  assumes "IDEList_releases ides = Inr crs"
    and "\<forall>cr \<in> set crs. build (snd cr) \<noteq> None \<longrightarrow> (\<exists>k. V (version (snd cr)) = Inr k)"
  shows "\<exists>m. map_version_to_build_numbers V ides = Inr m"
proof -
  obtain t where t: "table_loop crs [] = Inr t" using table_loop_total by blast
  have "\<exists>k. V (fst x) = Inr k" if "x \<in> set t" for x
  proof -
    from that have "fst x \<in> set (map fst t)" by simp
    with table_loop_keys [OF t] obtain cr where "cr \<in> set crs" "build (snd cr) \<noteq> None" "version (snd cr) = fst x"
      by (auto simp: set_first_seen)
    with assms(2) show ?thesis by auto
  qed
  then obtain ks where "sort_keys V t = Inr ks" using sort_keys_total [of t V] by blast
  with assms(1) t show ?thesis by (simp add: map_version_to_build_numbers_def)
qed

lemma aggregator_keys:
  assumes "map_version_to_build_numbers V ides = Inr m" and "IDEList_releases ides = Inr crs"
  shows "set (map fst m) = {version (snd cr) |cr. cr \<in> set crs \<and> build (snd cr) \<noteq> None}"
proof -
  obtain t where t: "table_loop crs [] = Inr t" using table_loop_total by blast
  from aggregator_map_of(1) [OF assms t] have "dom (map_of m) = dom (map_of t)" by simp
  then have "set (map fst m) = set (map fst t)" by (simp add: dom_map_of_conv_image_fst)
  also have "\<dots> = set (map (\<lambda>cr. version (snd cr)) (filter (\<lambda>cr. build (snd cr) \<noteq> None) crs))"
    by (simp only: table_loop_keys [OF t] set_first_seen) simp
  also have "\<dots> = {version (snd cr) |cr. cr \<in> set crs \<and> build (snd cr) \<noteq> None}"
    by force
  finally show ?thesis .
qed

lemma aggregator_filter:
  assumes "map_version_to_build_numbers V ides = Inr m"
  shows "map_version_to_build_numbers V (without_absent_builds ides) = Inr m"
proof -
  from assms obtain crs where crs: "IDEList_releases ides = Inr crs"
    by (auto simp: map_version_to_build_numbers_def split: sum.splits)
  from IDEList_releases_filter [OF crs] crs assms show ?thesis
    by (simp add: map_version_to_build_numbers_def table_loop_filter del: not_None_eq)
qed

section \<open>Presence of builds and the rows of the matrix\<close>

lemma example_releases: "IDEList_releases example_ides = Inr example_pairs"
  by code_simp

lemma example_aggregated:
  "map_version_to_build_numbers packaging_Version example_ides = Inr example_matrix"
  by code_simp

text \<open>
  C2. When the aggregator returns a matrix: every pair of the input whose build is present
  has a cell with a build at its version and member; every cell and every row of the
  matrix comes from a pair whose build is present, at that version and member; and the
  matrix is the one of the input without the releases that have no build.
\<close>

theorem present_builds_fill_the_matrix:
  assumes "IDEList_releases ides = Inr crs"
    and "map_version_to_build_numbers Version ides = Inr m"
  shows "(\<forall>cr \<in> set crs. build (snd cr) \<noteq> None \<longrightarrow>
            (\<exists>b. cell m (version (snd cr)) (fst cr) = Some (Some b))) \<and>
         (\<forall>v c x. cell m v c = Some x \<longrightarrow>
            (\<exists>cr \<in> set crs. fst cr = c \<and> version (snd cr) = v \<and> build (snd cr) = x \<and> x \<noteq> None)) \<and>
         (\<forall>v \<in> set (map fst m). \<exists>cr \<in> set crs. version (snd cr) = v \<and> build (snd cr) \<noteq> None) \<and>
         map_version_to_build_numbers Version (without_absent_builds ides) = Inr m"
proof (intro conjI ballI allI impI)
  fix cr assume cr: "cr \<in> set crs" "build (snd cr) \<noteq> None"
  let ?P = "\<lambda>x. fst x = fst cr \<and> version (snd x) = version (snd cr) \<and> build (snd x) \<noteq> None"
  from cr have "cr \<in> set (filter ?P crs)" by simp
  then have "filter ?P crs \<noteq> []" by (metis empty_iff empty_set)
  then obtain x xs where xs: "filter ?P crs = x # xs" by (auto simp: neq_Nil_conv)
  then have "last (x # xs) \<in> set (filter ?P crs)" by (metis last_in_set list.distinct(1))
  then obtain b where "build (snd (last (x # xs))) = Some b" by auto
  with xs have "last_build crs (fst cr) (version (snd cr)) = Some b"
    by (simp add: last_build_def)
  with aggregator_cell [OF assms(2,1), of "version (snd cr)" "fst cr"]
  show "\<exists>b. cell m (version (snd cr)) (fst cr) = Some (Some b)" by simp
next
  fix v c x assume x: "cell m v c = Some x"
  let ?P = "\<lambda>cr. fst cr = c \<and> version (snd cr) = v \<and> build (snd cr) \<noteq> None"
  from x aggregator_cell [OF assms(2,1), of v c]
  obtain b where b: "last_build crs c v = Some b" "x = Some b"
    by (auto split: option.splits)
  then obtain y ys where ys: "filter ?P crs = y # ys" "build (snd (last (y # ys))) = Some b"
    by (auto simp: last_build_def split: list.splits)
  then have "last (y # ys) \<in> set (filter ?P crs)" by (metis last_in_set list.distinct(1))
  with ys(2) b(2) show "\<exists>cr \<in> set crs. fst cr = c \<and> version (snd cr) = v \<and> build (snd cr) = x \<and> x \<noteq> None"
    by (intro bexI [of _ "last (y # ys)"]) auto
next
  fix v assume "v \<in> set (map fst m)"
  then have "v \<in> {version (snd cr) |cr. cr \<in> set crs \<and> build (snd cr) \<noteq> None}"
    by (simp only: aggregator_keys [OF assms(2,1)])
  then show "\<exists>cr \<in> set crs. version (snd cr) = v \<and> build (snd cr) \<noteq> None" by blast
next
  from assms(2) show "map_version_to_build_numbers Version (without_absent_builds ides) = Inr m"
    by (rule aggregator_filter)
qed

theorem present_builds_fill_the_matrix_witness:
  "IDEList_releases example_ides = Inr example_pairs \<and>
   map_version_to_build_numbers packaging_Version example_ides = Inr example_matrix \<and>
   cell example_matrix ''2023.3'' IIU = Some (Some ''233.100'') \<and>
   cell example_matrix ''2024.1'' IIU = Some (Some ''241.1'') \<and>
   cell example_matrix ''2023.3'' IIC = None \<and>
   map_version_to_build_numbers packaging_Version (without_absent_builds example_ides) = Inr example_matrix"
proof -
  note C2 = present_builds_fill_the_matrix [OF example_releases example_aggregated]
  have "cell example_matrix ''2023.3'' IIU = Some (Some ''233.100'')"
    and "cell example_matrix ''2024.1'' IIU = Some (Some ''241.1'')"
    and "cell example_matrix ''2023.3'' IIC = None"
    by (simp_all add: cell_def example_matrix_def)
  with C2 example_releases example_aggregated show ?thesis by simp
qed

text \<open>
  C4. In a matrix that the aggregator returns the version keys are distinct, no row is
  empty, and no cell of a row holds \<^verbatim>\<open>None\<close>.
\<close>

theorem rows_never_empty:
  assumes "map_version_to_build_numbers Version ides = Inr m"
  shows "distinct (map fst m) \<and>
         (\<forall>vr \<in> set m. snd vr \<noteq> [] \<and> (\<forall>cb \<in> set (snd vr). snd cb \<noteq> None))"
proof -
  from assms have "table_inv m" by (rule aggregator_Inr)
  then show ?thesis by (simp add: table_inv_def)
qed

theorem rows_never_empty_witness:
  "map_version_to_build_numbers packaging_Version example_ides = Inr example_matrix \<and>
   distinct (map fst example_matrix) \<and>
   list_all (\<lambda>vr. snd vr \<noteq> [] \<and> list_all (\<lambda>cb. snd cb \<noteq> None) (snd vr)) example_matrix"
  using rows_never_empty [OF example_aggregated] example_aggregated
  by (simp add: list_all_iff)

section \<open>The order of the rows, duplicates and versions without a key\<close>

lemma aggregator_sorted:
  assumes "map_version_to_build_numbers V ides = Inr m"
  shows "sorted_wrt (version_ge V) (map fst m)"
proof -
  from assms obtain ks t where "sort_keys V t = Inr ks" "m = sorted_reverse ks"
    by (rule aggregator_Inr)
  with sort_keys_Inr [of V t ks] show ?thesis
    by (simp add: sorted_reverse_sorted)
qed

lemma sorted_wrt_distinct:
  "distinct xs \<Longrightarrow> sorted_wrt R xs \<Longrightarrow> sorted_wrt (\<lambda>x y. R x y \<and> x \<noteq> y) xs"
  by (induction xs) auto

lemma aggregator_strict:
  assumes "map_version_to_build_numbers V ides = Inr m"
    and "\<forall>v1 \<in> set (map fst m). \<forall>v2 \<in> set (map fst m). V v1 = V v2 \<longrightarrow> v1 = v2"
  shows "sorted_wrt (version_gt V) (map fst m)"
proof -
  from assms(1) have "distinct (map fst m)" by (rule aggregator_Inr)
  with aggregator_sorted [OF assms(1)]
  have "sorted_wrt (\<lambda>x y. version_ge V x y \<and> x \<noteq> y) (map fst m)"
    by (simp add: sorted_wrt_distinct)
  moreover have "version_gt V x y"
    if "x \<in> set (map fst m)" "y \<in> set (map fst m)" "version_ge V x y \<and> x \<noteq> y" for x y
  proof -
    from that(3) obtain k1 k2 where k: "V x = Inr k1" "V y = Inr k2" "k2 \<le> k1"
      by (auto simp: version_ge_def split: sum.splits)
    from that assms(2) have "V x \<noteq> V y" by blast
    with k have "k2 < k1" by auto
    with k show ?thesis by (simp add: version_gt_def)
  qed
  ultimately show ?thesis by (rule sorted_wrt_mono_rel [rotated])
qed

lemma aggregator_stable:
  assumes "map_version_to_build_numbers V ides = Inr m" and "IDEList_releases ides = Inr crs"
  shows "filter (\<lambda>v. V v = Inr k) (map fst m) =
         filter (\<lambda>v. V v = Inr k)
           (first_seen [] (map (\<lambda>cr. version (snd cr)) (filter (\<lambda>cr. build (snd cr) \<noteq> None) crs)))"
proof -
  from assms(1) obtain crs' t ks where
    *: "IDEList_releases ides = Inr crs'" "table_loop crs' [] = Inr t"
       "sort_keys V t = Inr ks" "m = sorted_reverse ks"
    by (rule aggregator_Inr)
  from * assms(2) have t: "table_loop crs [] = Inr t" by simp
  from sort_keys_Inr [OF *(3)] have ks: "map snd ks = t" "\<forall>kx \<in> set ks. V (fst (snd kx)) = Inr (fst kx)"
    by simp_all
  have "filter (\<lambda>v. V v = Inr k) (map fst m) = map fst (filter (\<lambda>x. V (fst x) = Inr k) m)"
    by (simp add: filter_map comp_def)
  also have "\<dots> = map fst (filter (\<lambda>x. V (fst x) = Inr k) t)"
    using sorted_reverse_stable [OF ks(2), of k] by (simp add: *(4) ks(1))
  also have "\<dots> = filter (\<lambda>v. V v = Inr k) (map fst t)"
    by (simp add: filter_map comp_def)
  finally show ?thesis by (simp only: table_loop_keys [OF t] list.map)
qed

text \<open>
  C8. When the aggregator returns a matrix and the input has pairs with the member
  \<open>c\<close>, the version \<open>v\<close> and a build, one or several, the cell at \<open>v\<close> and
  \<open>c\<close> holds the build of the last of them in the order of the input.
\<close>

theorem last_seen_build_wins:
  assumes "IDEList_releases ides = Inr crs"
    and "map_version_to_build_numbers Version ides = Inr m"
    and "filter (\<lambda>cr. fst cr = c \<and> version (snd cr) = v \<and> build (snd cr) \<noteq> None) crs = xs"
    and "xs \<noteq> []"
  shows "cell m v c = Some (build (snd (last xs))) \<and> build (snd (last xs)) \<noteq> None"
proof -
  let ?P = "\<lambda>cr. fst cr = c \<and> version (snd cr) = v \<and> build (snd cr) \<noteq> None"
  from assms(3,4) have "last xs \<in> set (filter ?P crs)" by simp
  then obtain b where b: "build (snd (last xs)) = Some b" by auto
  from assms(3,4) have "last_build crs c v = build (snd (last xs))"
    by (cases xs) (simp_all add: last_build_def)
  with b aggregator_cell [OF assms(2,1), of v c] show ?thesis by simp
qed

theorem last_seen_build_wins_witness:
  "IDEList_releases duplicate_ides = Inr duplicate_pairs \<and>
   map_version_to_build_numbers packaging_Version duplicate_ides = Inr [(''2024.1'', [(IIU, Some ''241.2'')])] \<and>
   filter (\<lambda>cr. fst cr = IIU \<and> version (snd cr) = ''2024.1'' \<and> build (snd cr) \<noteq> None) duplicate_pairs
     = duplicate_pairs \<and>
   cell [(''2024.1'', [(IIU, Some ''241.2'')])] ''2024.1'' IIU = Some (Some ''241.2'')"
proof -
  have a: "IDEList_releases duplicate_ides = Inr duplicate_pairs" by code_simp
  have b: "map_version_to_build_numbers packaging_Version duplicate_ides = Inr [(''2024.1'', [(IIU, Some ''241.2'')])]"
    by code_simp
  have c: "filter (\<lambda>cr. fst cr = IIU \<and> version (snd cr) = ''2024.1'' \<and> build (snd cr) \<noteq> None) duplicate_pairs
     = duplicate_pairs"
    by (simp add: duplicate_pairs_def)
  have d: "duplicate_pairs \<noteq> []" by (simp add: duplicate_pairs_def)
  from last_seen_build_wins [OF a b c d]
  have "cell [(''2024.1'', [(IIU, Some ''241.2'')])] ''2024.1'' IIU = Some (Some ''241.2'')"
    by (simp add: duplicate_pairs_def)
  with a b c show ?thesis by simp
qed

text \<open>
  C1, as it is stated, fails: the strings \<open>2024.1\<close> and \<open>2024.01\<close> are two keys of the
  table and denote the same version, so they make two adjacent rows of which the first
  is not above the second.
\<close>

theorem rows_strictly_descending_counterexample:
  "map_version_to_build_numbers packaging_Version same_version_ides =
     Inr [(''2024.1'', [(IIU, Some ''241.1'')]), (''2024.01'', [(IIU, Some ''241.2'')])] \<and>
   packaging_Version ''2024.1'' = Inr (0, [2024, 1], Infinity, NegativeInfinity, Infinity, 0, []) \<and>
   packaging_Version ''2024.01'' = Inr (0, [2024, 1], Infinity, NegativeInfinity, Infinity, 0, []) \<and>
   \<not> version_gt packaging_Version ''2024.1'' ''2024.01''"
  by code_simp

text \<open>
  C1, amended. When the iteration over the releases succeeds and the version of every
  release that has a build has a key, the aggregator returns a matrix whose rows descend
  by version: of two rows the earlier one is at least the later one. The descent is
  strict when no two row keys denote the same version, and rows that denote the same
  version stand in the order in which their strings were first seen.
\<close>

theorem rows_descend_by_version:
  assumes "IDEList_releases ides = Inr crs"
    and "\<forall>cr \<in> set crs. build (snd cr) \<noteq> None \<longrightarrow> (\<exists>k. Version (version (snd cr)) = Inr k)"
  shows "\<exists>m. map_version_to_build_numbers Version ides = Inr m \<and>
           sorted_wrt (version_ge Version) (map fst m) \<and>
           ((\<forall>v1 \<in> set (map fst m). \<forall>v2 \<in> set (map fst m). Version v1 = Version v2 \<longrightarrow> v1 = v2) \<longrightarrow>
              sorted_wrt (version_gt Version) (map fst m)) \<and>
           (\<forall>k. filter (\<lambda>v. Version v = Inr k) (map fst m) =
                filter (\<lambda>v. Version v = Inr k)
                  (first_seen [] (map (\<lambda>cr. version (snd cr))
                     (filter (\<lambda>cr. build (snd cr) \<noteq> None) crs))))"
proof -
  from aggregator_total [OF assms] obtain m where
    m: "map_version_to_build_numbers Version ides = Inr m" by blast
  from m have "sorted_wrt (version_ge Version) (map fst m)" by (rule aggregator_sorted)
  moreover have "sorted_wrt (version_gt Version) (map fst m)"
    if "\<forall>v1 \<in> set (map fst m). \<forall>v2 \<in> set (map fst m). Version v1 = Version v2 \<longrightarrow> v1 = v2"
    using m that by (rule aggregator_strict)
  moreover have "filter (\<lambda>v. Version v = Inr k) (map fst m) =
                filter (\<lambda>v. Version v = Inr k)
                  (first_seen [] (map (\<lambda>cr. version (snd cr))
                     (filter (\<lambda>cr. build (snd cr) \<noteq> None) crs)))" for k
    using m assms(1) by (rule aggregator_stable)
  ultimately show ?thesis using m by blast
qed

theorem rows_descend_by_version_witness:
  "IDEList_releases ordering_ides = Inr ordering_pairs \<and>
   map_version_to_build_numbers packaging_Version ordering_ides =
     Inr [(''2024.10'', [(PCP, Some ''2410.1'')]),
          (''2024.9'', [(PCP, Some ''249.1'')]),
          (''2023.3.1'', [(PCP, Some ''233.2'')])] \<and>
   sorted_wrt (version_gt packaging_Version) [''2024.10'', ''2024.9'', ''2023.3.1'']"
proof -
  have a: "IDEList_releases ordering_ides = Inr ordering_pairs" by code_simp
  have k: "packaging_Version ''2024.9'' = Inr (0, [2024, 9], Infinity, NegativeInfinity, Infinity, 0, [])"
    "packaging_Version ''2023.3.1'' = Inr (0, [2023, 3, 1], Infinity, NegativeInfinity, Infinity, 0, [])"
    "packaging_Version ''2024.10'' = Inr (0, [2024, 10], Infinity, NegativeInfinity, Infinity, 0, [])"
    by code_simp+
  have b: "\<forall>cr \<in> set ordering_pairs. build (snd cr) \<noteq> None \<longrightarrow>
             (\<exists>k. packaging_Version (version (snd cr)) = Inr k)"
    by (simp add: ordering_pairs_def k del: split_paired_Ex)
  have c: "map_version_to_build_numbers packaging_Version ordering_ides =
     Inr [(''2024.10'', [(PCP, Some ''2410.1'')]),
          (''2024.9'', [(PCP, Some ''249.1'')]),
          (''2023.3.1'', [(PCP, Some ''233.2'')])]"
    by code_simp
  have d: "\<forall>v1 \<in> set [''2024.10'', ''2024.9'', ''2023.3.1''].
           \<forall>v2 \<in> set [''2024.10'', ''2024.9'', ''2023.3.1''].
             packaging_Version v1 = packaging_Version v2 \<longrightarrow> v1 = v2"
    by (simp add: k)
  from rows_descend_by_version [OF a b] obtain m where
    m: "map_version_to_build_numbers packaging_Version ordering_ides = Inr m" and
    strict: "(\<forall>v1 \<in> set (map fst m). \<forall>v2 \<in> set (map fst m).
                packaging_Version v1 = packaging_Version v2 \<longrightarrow> v1 = v2) \<longrightarrow>
             sorted_wrt (version_gt packaging_Version) (map fst m)"
    by blast
  from m c have "m = [(''2024.10'', [(PCP, Some ''2410.1'')]),
          (''2024.9'', [(PCP, Some ''249.1'')]),
          (''2023.3.1'', [(PCP, Some ''233.2'')])]"
    by (simp only: sum.inject)
  then have "map fst m = [''2024.10'', ''2024.9'', ''2023.3.1'']"
    by (simp only: list.map fst_conv)
  with strict d
  have "sorted_wrt (version_gt packaging_Version) [''2024.10'', ''2024.9'', ''2023.3.1'']"
    by (simp only:)
  with a c show ?thesis by simp
qed

lemma int_of_digits_Inl: "int_of_digits ds = Inl e \<Longrightarrow> digit_limit_error e"
  by (auto simp: int_of_digits_def digit_limit_error_def split: if_splits)

lemma and_then_Inl:
  "and_then x f = Inl e \<Longrightarrow> x = Inl e \<or> (\<exists>y. x = Inr y \<and> f y = Inl e)"
  by (cases x) (simp_all add: and_then_def)

lemma collect_Inl: "collect xs = Inl e \<Longrightarrow> Inl e \<in> set xs"
  by (induction xs) (auto split: sum.splits)

lemma parse_letter_version_Inl:
  "parse_letter_version letter number = Inl e \<Longrightarrow> digit_limit_error e"
  by (auto simp: parse_letter_version_def Let_def dest!: and_then_Inl int_of_digits_Inl
      split: option.splits)

lemma parse_local_version_Inl:
  assumes "parse_local_version loc = Inl e"
  shows "digit_limit_error e"
proof -
  from assms obtain parts where
    "collect (map (\<lambda>part. if list_all is_digit part
                          then and_then (int_of_digits part) (\<lambda>n. Inr (LocalInt n))
                          else Inr (LocalStr (map lower part))) parts) = Inl e"
    by (auto simp: parse_local_version_def dest!: and_then_Inl split: option.splits)
  from collect_Inl [OF this] obtain part where
    "and_then (int_of_digits part) (\<lambda>n. Inr (LocalInt n)) = Inl e"
    by (auto split: if_splits)
  then have "int_of_digits part = Inl e" by (auto dest!: and_then_Inl)
  then show ?thesis by (rule int_of_digits_Inl)
qed

lemma packaging_Version_no_match:
  "regex_search v = None \<Longrightarrow> packaging_Version v = Inl (InvalidVersion v)"
  by (simp add: packaging_Version_def)

lemma packaging_Version_Inl:
  assumes "packaging_Version v = Inl e"
  shows "(regex_search v = None \<and> e = InvalidVersion v) \<or>
         (regex_search v \<noteq> None \<and> digit_limit_error e)"
proof (cases "regex_search v")
  case None
  with assms show ?thesis by (simp add: packaging_Version_def)
next
  case (Some g)
  obtain epoch release pre post dev loc where g: "g = (epoch, release, pre, post, dev, loc)"
    by (cases g)
  have release: "digit_limit_error e" if "collect (map int_of_digits release) = Inl e"
  proof -
    from collect_Inl [OF that] obtain ds where "int_of_digits ds = Inl e" by auto
    then show ?thesis by (rule int_of_digits_Inl)
  qed
  from assms Some g have "digit_limit_error e"
    by (auto simp: packaging_Version_def dest!: and_then_Inl
        dest: int_of_digits_Inl release parse_letter_version_Inl parse_local_version_Inl
        split: option.splits)
  with Some show ?thesis by simp
qed

text \<open>
  C3. When the iteration over the releases succeeds, the version strings of the releases
  with a build are ASCII and one of them is a string that the version pattern does not
  match, the aggregator returns no matrix: it raises the exception that \<^verbatim>\<open>Version\<close>
  raises on a version string of the input that has a build. That exception is
  \<^verbatim>\<open>InvalidVersion\<close> carrying the string, for a string that the pattern does not match,
  unless an earlier key of the table has more than 4300 digits in one number, on which
  \<^verbatim>\<open>int\<close> raises \<^verbatim>\<open>ValueError\<close> first.
\<close>

theorem unparsable_version_is_fatal:
  assumes "IDEList_releases ides = Inr crs"
    and "cr \<in> set crs" and "build (snd cr) \<noteq> None"
    and "regex_search (version (snd cr)) = None"
    and "\<forall>cr' \<in> set crs. build (snd cr') \<noteq> None \<longrightarrow> ascii (version (snd cr'))"
  shows "\<exists>v e. map_version_to_build_numbers packaging_Version ides = Inl e \<and>
             (\<exists>cr' \<in> set crs. version (snd cr') = v \<and> build (snd cr') \<noteq> None) \<and>
             packaging_Version v = Inl e \<and>
             ((regex_search v = None \<and> e = InvalidVersion v) \<or>
              (regex_search v \<noteq> None \<and> digit_limit_error e))"
proof -
  obtain t where t: "table_loop crs [] = Inr t" using table_loop_total by blast
  have keys: "set (map fst t) = {version (snd cr) |cr. cr \<in> set crs \<and> build (snd cr) \<noteq> None}"
    by (simp only: table_loop_keys [OF t] set_first_seen) force
  with assms(2,3) have "version (snd cr) \<in> set (map fst t)" by blast
  then obtain x where x: "x \<in> set t" "fst x = version (snd cr)" by auto
  with assms(4) have "packaging_Version (fst x) = Inl (InvalidVersion (fst x))"
    by (simp add: packaging_Version_no_match)
  with x(1) obtain e where e: "sort_keys packaging_Version t = Inl e"
    using sort_keys_fails by blast
  from sort_keys_Inl [OF e] obtain pre y post where
    "t = pre @ y # post" and "packaging_Version (fst y) = Inl e"
    by blast
  then have y: "y \<in> set t" "packaging_Version (fst y) = Inl e" by simp_all
  from y(1) have "fst y \<in> set (map fst t)" by simp
  with keys obtain cr' where "cr' \<in> set crs" "version (snd cr') = fst y" "build (snd cr') \<noteq> None"
    by auto
  moreover from assms(1) t e
  have "map_version_to_build_numbers packaging_Version ides = Inl e"
    by (simp add: map_version_to_build_numbers_def)
  ultimately show ?thesis using y(2) packaging_Version_Inl [OF y(2)] by blast
qed

theorem unparsable_version_is_fatal_witness:
  "IDEList_releases latest_ides = Inr latest_pairs \<and>
   regex_search ''latest'' = None \<and>
   ascii ''latest'' \<and> ascii ''2024.1'' \<and>
   map_version_to_build_numbers packaging_Version latest_ides = Inl (InvalidVersion ''latest'')"
proof -
  have a: "IDEList_releases latest_ides = Inr latest_pairs" by code_simp
  have b: "regex_search ''latest'' = None" by code_simp
  have c: "packaging_Version ''2024.1'' = Inr (0, [2024, 1], Infinity, NegativeInfinity, Infinity, 0, [])"
    by code_simp
  have d: "ascii ''latest''" "ascii ''2024.1''" by code_simp+
  have m: "(IIU, \<lparr>version = ''latest'', build = Some ''999.1'', date = \<lparr>year = 2024, month = 3, day = 1\<rparr>\<rparr>)
          \<in> set latest_pairs"
    by (simp add: latest_pairs_def)
  have k: "\<forall>cr' \<in> set latest_pairs. build (snd cr') \<noteq> None \<longrightarrow> ascii (version (snd cr'))"
    using d by (simp add: latest_pairs_def)
  from unparsable_version_is_fatal [OF a m _ _ k] b
  obtain v e where v: "map_version_to_build_numbers packaging_Version latest_ides = Inl e"
    "\<exists>cr' \<in> set latest_pairs. version (snd cr') = v" "packaging_Version v = Inl e"
    by auto
  from v(2) have "v = ''2024.1'' \<or> v = ''latest''" by (auto simp: latest_pairs_def)
  with v(3) c have "v = ''latest''" by auto
  with v(3) b have "e = InvalidVersion ''latest''" by (simp add: packaging_Version_no_match)
  with a b d v(1) show ?thesis by simp
qed

section \<open>The code/name index\<close>

lemma filter_distinct_key:
  "distinct (map f xs) \<Longrightarrow> x \<in> set xs \<Longrightarrow> filter (\<lambda>y. f y = f x) xs = [x]"
proof (induction xs)
  case Nil
  then show ?case by simp
next
  case (Cons a xs)
  show ?case
  proof (cases "a = x")
    case True
    from Cons.prems(1) have "f a \<notin> f ` set xs" by simp
    then have "\<forall>y \<in> set xs. f y \<noteq> f a" by (metis imageI)
    then have "filter (\<lambda>y. f y = f a) xs = []" by (simp add: filter_empty_conv)
    with True show ?thesis by simp
  next
    case False
    with Cons.prems have x: "x \<in> set xs" and "f a \<noteq> f x" by auto
    with Cons show ?thesis by simp
  qed
qed

lemma update_all_codes_stable:
  "filter (\<lambda>e. fst e = c) (update_all_codes products) =
   map (\<lambda>p. (code p, name p)) (filter (\<lambda>p. code p = c) products)"
  by (simp add: update_all_codes_def sort_key_stable filter_map comp_def)

text \<open>
  C7, as it is stated, fails: two fetched products with the same code give two entries
  with that code.
\<close>

theorem one_entry_per_code_counterexample:
  "update_all_codes two_codes = [(''AA'', ''Other''), (''XX'', ''First''), (''XX'', ''Second'')] \<and>
   length (filter (\<lambda>e. fst e = ''XX'') (update_all_codes two_codes)) = 2"
  by code_simp

text \<open>
  C7, amended. The index has one entry per fetched product, whatever its code: the
  entries are the pairs of code and name of the products, sorted by code in ascending
  order, and the entries with one code are those of the products with that code in the
  order of the input. When the codes of the products are distinct this is exactly one
  entry per code.
\<close>

theorem update_all_codes_entries:
  "sorted (map fst (update_all_codes products)) \<and>
   length (update_all_codes products) = length products \<and>
   set (update_all_codes products) = (\<lambda>p. (code p, name p)) ` set products \<and>
   (\<forall>c. filter (\<lambda>e. fst e = c) (update_all_codes products) =
          map (\<lambda>p. (code p, name p)) (filter (\<lambda>p. code p = c) products)) \<and>
   (distinct (map code products) \<longrightarrow>
      (\<forall>p \<in> set products.
          filter (\<lambda>e. fst e = code p) (update_all_codes products) = [(code p, name p)]))"
proof (intro conjI allI impI ballI)
  show "sorted (map fst (update_all_codes products))"
    by (simp add: update_all_codes_def)
  show "length (update_all_codes products) = length products"
    by (simp add: update_all_codes_def)
  show "set (update_all_codes products) = (\<lambda>p. (code p, name p)) ` set products"
    by (simp add: update_all_codes_def)
  show "filter (\<lambda>e. fst e = c) (update_all_codes products) =
          map (\<lambda>p. (code p, name p)) (filter (\<lambda>p. code p = c) products)" for c
    by (rule update_all_codes_stable)
  show "filter (\<lambda>e. fst e = code p) (update_all_codes products) = [(code p, name p)]"
    if "distinct (map code products)" "p \<in> set products" for p
    using filter_distinct_key [OF that] by (simp add: update_all_codes_stable)
qed

theorem update_all_codes_entries_witness:
  "distinct (map code example_ides) \<and>
   update_all_codes example_ides =
     [(''IIC'', ''IntelliJ IDEA Community Edition''), (''IIU'', ''IntelliJ IDEA Ultimate'')] \<and>
   filter (\<lambda>e. fst e = ''IIU'') (update_all_codes example_ides) = [(''IIU'', ''IntelliJ IDEA Ultimate'')]"
proof -
  have d: "distinct (map code example_ides)" by (simp add: example_ides_def)
  have e: "update_all_codes example_ides =
     [(''IIC'', ''IntelliJ IDEA Community Edition''), (''IIU'', ''IntelliJ IDEA Ultimate'')]"
    by code_simp
  have "hd example_ides \<in> set example_ides" by (simp add: example_ides_def)
  with update_all_codes_entries [of example_ides] d
  have "filter (\<lambda>e. fst e = code (hd example_ides)) (update_all_codes example_ides)
          = [(code (hd example_ides), name (hd example_ides))]"
    by blast
  then have "filter (\<lambda>e. fst e = ''IIU'') (update_all_codes example_ides) = [(''IIU'', ''IntelliJ IDEA Ultimate'')]"
    by (simp add: example_ides_def)
  with d e show ?thesis by simp
qed

section \<open>The grouped view\<close>

lemma map_of_json_step:
  "map_of (json_step g (c, r)) k =
     (if k = IDECode_name c
      then Some ((case map_of g k of None \<Rightarrow> [] | Some l \<Rightarrow> l) @ [release_as_json r])
      else map_of g k)"
proof (cases "map_of g (IDECode_name c)")
  case None
  then have "IDECode_name c \<notin> set (map fst g)" by (simp add: map_of_None_keys)
  with None show ?thesis
    by (simp add: json_step_def AList.map_of_map_entry AList.update_conv')
next
  case (Some l)
  then have "IDECode_name c \<in> set (map fst g)"
    using map_of_None_keys [of g "IDECode_name c"] by auto
  with Some show ?thesis
    by (simp add: json_step_def AList.map_of_map_entry)
qed

lemma distinct_json_step:
  "distinct (map fst g) \<Longrightarrow> distinct (map fst (json_step g cr))"
  by (cases cr) (simp add: json_step_def AList.distinct_map_entry AList.distinct_update)

lemma distinct_foldl_json_step:
  "distinct (map fst g) \<Longrightarrow> distinct (map fst (foldl json_step g crs))"
  by (induction crs arbitrary: g) (simp_all add: distinct_json_step)

lemma map_of_foldl_json_step:
  "map_of (foldl json_step g crs) k =
     (if filter (\<lambda>cr. IDECode_name (fst cr) = k) crs = [] then map_of g k
      else Some ((case map_of g k of None \<Rightarrow> [] | Some l \<Rightarrow> l) @
                   map (\<lambda>cr. release_as_json (snd cr)) (filter (\<lambda>cr. IDECode_name (fst cr) = k) crs)))"
proof (induction crs arbitrary: g)
  case Nil
  then show ?case by simp
next
  case (Cons cr crs)
  obtain c r where cr: "cr = (c, r)" by (cases cr)
  show ?case
    by (simp add: cr Cons.IH map_of_json_step)
qed

lemma IDEList_releases_of_member:
  "IDEList_releases ides = Inr crs \<Longrightarrow>
   map snd (filter (\<lambda>cr. fst cr = c) crs) = releases_of ides c"
proof (induction ides arbitrary: crs)
  case Nil
  then show ?case by (simp add: releases_of_def)
next
  case (Cons p ides)
  from Cons.prems obtain ys zs where
    ys: "product_releases (code p) (releases p) = Inr ys" and
    zs: "IDEList_releases ides = Inr zs" and crs: "crs = ys @ zs"
    by (auto split: sum.splits)
  have "map snd (filter (\<lambda>cr. fst cr = c) ys) = (if code p = IDECode_name c then releases p else [])"
  proof (cases "IDECode_getitem (code p)")
    case (Inl e)
    with ys have "releases p = []" "ys = []"
      by (auto simp: product_releases_unknown split: if_splits)
    then show ?thesis by simp
  next
    case (Inr m)
    then have m: "IDECode_name m = code p" by (simp add: IDECode_getitem_Inr)
    from Inr ys have "ys = map (Pair m) (releases p)" by (simp add: product_releases_known)
    moreover have "m = c \<longleftrightarrow> code p = IDECode_name c"
      using m IDECode_name_inject [of m c] by auto
    ultimately show ?thesis
      by (simp add: filter_map comp_def)
  qed
  with Cons.IH [OF zs] crs show ?case by (simp add: releases_of_def)
qed

lemma update_json_lookup:
  assumes "update_json ides = Inr g"
  shows "distinct (map fst g)"
    and "map_of g (IDECode_name c) =
           (if releases_of ides c = [] then None else Some (map release_as_json (releases_of ides c)))"
    and "(\<forall>c. k \<noteq> IDECode_name c) \<Longrightarrow> map_of g k = None"
proof -
  from assms obtain crs where crs: "IDEList_releases ides = Inr crs" and g: "g = foldl json_step [] crs"
    by (auto simp: update_json_def split: sum.splits)
  show "distinct (map fst g)" by (simp add: g distinct_foldl_json_step)
  have eq: "filter (\<lambda>cr. IDECode_name (fst cr) = IDECode_name c) crs = filter (\<lambda>cr. fst cr = c) crs"
    by (simp add: IDECode_name_inject)
  have "map (\<lambda>cr. release_as_json (snd cr)) (filter (\<lambda>cr. fst cr = c) crs)
          = map release_as_json (releases_of ides c)"
  proof -
    have "map (\<lambda>cr. release_as_json (snd cr)) (filter (\<lambda>cr. fst cr = c) crs)
            = map release_as_json (map snd (filter (\<lambda>cr. fst cr = c) crs))"
      by simp
    then show ?thesis by (simp only: IDEList_releases_of_member [OF crs])
  qed
  moreover have "filter (\<lambda>cr. fst cr = c) crs = [] \<longleftrightarrow> releases_of ides c = []"
    using IDEList_releases_of_member [OF crs, of c] by (metis map_is_Nil_conv)
  ultimately show "map_of g (IDECode_name c) =
           (if releases_of ides c = [] then None else Some (map release_as_json (releases_of ides c)))"
    by (simp add: g map_of_foldl_json_step eq)
  assume "\<forall>c. k \<noteq> IDECode_name c"
  then have "filter (\<lambda>cr. IDECode_name (fst cr) = k) crs = []"
    by (auto simp: filter_empty_conv)
  then show "map_of g k = None" by (simp add: g map_of_foldl_json_step)
qed

section \<open>Lookups with \<^verbatim>\<open>get\<close>, dates and the failure of the iterator\<close>

lemma IDECode_get_Some: "IDECode_get s = Inr (Some m) \<longleftrightarrow> IDECode_name m = s"
proof (cases "IDECode_getitem s")
  case (Inl e)
  then have "e = KeyError s" "\<forall>m. IDECode_name m \<noteq> s" by (simp_all add: IDECode_getitem_Inl)
  with Inl show ?thesis by (auto simp: IDECode_get_def)
next
  case (Inr m')
  then have "IDECode_name m' = s" by (simp add: IDECode_getitem_Inr)
  with Inr show ?thesis by (auto simp: IDECode_get_def IDECode_name_inject)
qed

lemma IDECode_get_total: "IDECode_get s = Inr None \<or> (\<exists>m. IDECode_get s = Inr (Some m))"
proof (cases "IDECode_getitem s")
  case (Inl e)
  then have "e = KeyError s" by (simp add: IDECode_getitem_Inl)
  with Inl show ?thesis by (simp add: IDECode_get_def)
next
  case (Inr m)
  then show ?thesis by (simp add: IDECode_get_def)
qed

lemma IDECode_get_None: "IDECode_get s = Inr None \<longleftrightarrow> (\<forall>m. IDECode_name m \<noteq> s)"
  using IDECode_get_total [of s] IDECode_get_Some [of s] by (metis option.distinct(1) sum.inject(2))

lemma IDECode_name_not_value: "IDECode_name m \<noteq> IDECode_value m'"
  by (cases m; cases m') simp_all

lemma digit_char_inject: "a < 10 \<Longrightarrow> b < 10 \<Longrightarrow> digit_char a = digit_char b \<Longrightarrow> a = b"
proof -
  assume "a < 10" "b < 10" "digit_char a = digit_char b"
  moreover have "distinct ''0123456789''" by simp
  ultimately show "a = b" by (simp add: digit_char_def nth_eq_iff_index_eq)
qed

lemma digit_char_mod_inject:
  "digit_char (a mod 10) = digit_char (b mod 10) \<Longrightarrow> a mod 10 = b mod 10"
proof -
  assume eq: "digit_char (a mod 10) = digit_char (b mod 10)"
  have "a mod 10 < 10" "b mod 10 < 10" by simp_all
  then show ?thesis using eq by (rule digit_char_inject)
qed

lemma div_mod_10_eq:
  fixes a b :: nat
  assumes "a mod 10 = b mod 10" and "a div 10 = b div 10"
  shows "a = b"
proof -
  have "a = 10 * (a div 10) + a mod 10" by simp
  also have "\<dots> = 10 * (b div 10) + b mod 10" by (simp only: assms)
  also have "\<dots> = b" by simp
  finally show ?thesis .
qed

lemma two_digits_inject:
  assumes "a < 100" "b < 100" "two_digits a = two_digits b"
  shows "a = b"
proof -
  from assms(3) have d1: "digit_char (a div 10 mod 10) = digit_char (b div 10 mod 10)"
    and d0: "digit_char (a mod 10) = digit_char (b mod 10)"
    by (simp_all add: two_digits_def)
  from d0 have m0: "a mod 10 = b mod 10" by (rule digit_char_mod_inject)
  from d1 have m1: "a div 10 mod 10 = b div 10 mod 10" by (rule digit_char_mod_inject)
  from assms(1,2) have "a div 10 < 10" "b div 10 < 10" by simp_all
  with m1 have "a div 10 = b div 10" by simp
  with m0 show ?thesis by (rule div_mod_10_eq)
qed

lemma four_digits_inject:
  assumes "a < 10000" "b < 10000" "four_digits a = four_digits b"
  shows "a = b"
proof -
  from assms(3) have d3: "digit_char (a div 1000 mod 10) = digit_char (b div 1000 mod 10)"
    and d2: "digit_char (a div 100 mod 10) = digit_char (b div 100 mod 10)"
    and d1: "digit_char (a div 10 mod 10) = digit_char (b div 10 mod 10)"
    and d0: "digit_char (a mod 10) = digit_char (b mod 10)"
    by (simp_all add: four_digits_def)
  from d0 have m0: "a mod 10 = b mod 10" by (rule digit_char_mod_inject)
  from d1 have m1: "a div 10 mod 10 = b div 10 mod 10" by (rule digit_char_mod_inject)
  from d2 have m2: "a div 100 mod 10 = b div 100 mod 10" by (rule digit_char_mod_inject)
  from d3 have m3: "a div 1000 mod 10 = b div 1000 mod 10" by (rule digit_char_mod_inject)
  from assms(1,2) have "a div 1000 < 10" "b div 1000 < 10" by simp_all
  with m3 have e3: "a div 1000 = b div 1000" by simp
  have "a div 100 div 10 = a div 1000" "b div 100 div 10 = b div 1000"
    by (simp_all add: div_mult2_eq [symmetric])
  with e3 have "a div 100 div 10 = b div 100 div 10" by simp
  with m2 have e2: "a div 100 = b div 100" by (rule div_mod_10_eq)
  have "a div 10 div 10 = a div 100" "b div 10 div 10 = b div 100"
    by (simp_all add: div_mult2_eq [symmetric])
  with e2 have "a div 10 div 10 = b div 10 div 10" by simp
  with m1 have "a div 10 = b div 10" by (rule div_mod_10_eq)
  with m0 show ?thesis by (rule div_mod_10_eq)
qed

lemma isoformat_inject:
  assumes "date_in_range d" "date_in_range d'" "isoformat d = isoformat d'"
  shows "d = d'"
proof -
  have len: "length (four_digits n) = 4" "length (two_digits n) = 2" for n
    by (simp_all add: four_digits_def two_digits_def)
  from assms(3) have "four_digits (year d) = four_digits (year d')"
    and "two_digits (month d) = two_digits (month d')"
    and "two_digits (day d) = two_digits (day d')"
    by (simp_all add: isoformat_def len)
  with assms(1,2) have "year d = year d'" "month d = month d'" "day d = day d'"
    by (auto simp: date_in_range_def intro: four_digits_inject two_digits_inject)
  then show ?thesis by simp
qed

lemma release_as_json_inject:
  assumes "date_in_range (date r)" "date_in_range (date r')"
    and "release_as_json r = release_as_json r'"
  shows "r = r'"
proof -
  from assms(3) have "version r = version r'" "build r = build r'"
    "isoformat (date r) = isoformat (date r')"
    by (auto simp: release_as_json_def split: option.splits)
  with assms(1,2) show ?thesis by (simp add: isoformat_inject)
qed

lemma main_ides_filter:
  "main_ides products = Inr (filter (\<lambda>p. IDECode_get (code p) \<noteq> Inr None) products)"
proof (induction products)
  case Nil
  then show ?case by simp
next
  case (Cons p products)
  from IDECode_get_total [of "code p"] Cons show ?case by auto
qed

lemma IDEList_releases_Inl:
  "IDEList_releases ides = Inl e \<longleftrightarrow>
   (\<exists>pre p post. ides = pre @ p # post \<and>
      (\<forall>q \<in> set pre. releases q = [] \<or> IDECode_get (code q) \<noteq> Inr None) \<and>
      releases p \<noteq> [] \<and> IDECode_get (code p) = Inr None \<and> e = KeyError (code p))"
proof (induction ides)
  case Nil
  then show ?case by simp
next
  case (Cons a ides)
  show ?case
  proof (cases "releases a = [] \<or> IDECode_get (code a) \<noteq> Inr None")
    case True
    then obtain ys where ys: "product_releases (code a) (releases a) = Inr ys"
    proof
      assume "releases a = []"
      then have "product_releases (code a) (releases a) = Inr []" by simp
      with that show thesis .
    next
      assume "IDECode_get (code a) \<noteq> Inr None"
      with IDECode_get_total [of "code a"] obtain m where "IDECode_get (code a) = Inr (Some m)"
        by auto
      then have "IDECode_getitem (code a) = Inr m"
        by (simp add: IDECode_get_Some IDECode_getitem_Inr)
      then have "product_releases (code a) (releases a) = Inr (map (Pair m) (releases a))"
        by (rule product_releases_known)
      with that show thesis .
    qed
    have "IDEList_releases (a # ides) = Inl e \<longleftrightarrow> IDEList_releases ides = Inl e"
      using ys by (auto split: sum.splits)
    also have "\<dots> \<longleftrightarrow> (\<exists>pre p post. ides = pre @ p # post \<and>
      (\<forall>q \<in> set pre. releases q = [] \<or> IDECode_get (code q) \<noteq> Inr None) \<and>
      releases p \<noteq> [] \<and> IDECode_get (code p) = Inr None \<and> e = KeyError (code p))"
      by (rule Cons.IH)
    also have "\<dots> \<longleftrightarrow> (\<exists>pre p post. a # ides = pre @ p # post \<and>
      (\<forall>q \<in> set pre. releases q = [] \<or> IDECode_get (code q) \<noteq> Inr None) \<and>
      releases p \<noteq> [] \<and> IDECode_get (code p) = Inr None \<and> e = KeyError (code p))"
      (is "?L \<longleftrightarrow> ?R")
    proof
      assume ?L
      then obtain pre p post where *: "ides = pre @ p # post"
        "\<forall>q \<in> set pre. releases q = [] \<or> IDECode_get (code q) \<noteq> Inr None"
        "releases p \<noteq> []" "IDECode_get (code p) = Inr None" "e = KeyError (code p)"
        by blast
      with True have "a # ides = (a # pre) @ p # post \<and>
        (\<forall>q \<in> set (a # pre). releases q = [] \<or> IDECode_get (code q) \<noteq> Inr None)"
        by simp
      with * show ?R by blast
    next
      assume ?R
      then obtain pre p post where *: "a # ides = pre @ p # post"
        "\<forall>q \<in> set pre. releases q = [] \<or> IDECode_get (code q) \<noteq> Inr None"
        "releases p \<noteq> []" "IDECode_get (code p) = Inr None" "e = KeyError (code p)"
        by blast
      from *(1,3,4) True have "pre \<noteq> []" by (cases pre) auto
      then obtain pre' where pre: "pre = a # pre'" using *(1) by (cases pre) auto
      with * have "ides = pre' @ p # post \<and>
        (\<forall>q \<in> set pre'. releases q = [] \<or> IDECode_get (code q) \<noteq> Inr None)"
        by simp
      with * show ?L by blast
    qed
    finally show ?thesis .
  next
    case False
    then have a: "releases a \<noteq> []" "IDECode_get (code a) = Inr None" by simp_all
    then have "\<forall>m. IDECode_name m \<noteq> code a" by (simp add: IDECode_get_None)
    then have "IDECode_getitem (code a) = Inl (KeyError (code a))"
      by (simp add: IDECode_getitem_Inl)
    with a(1) have l: "IDEList_releases (a # ides) = Inl (KeyError (code a))"
      by (simp add: product_releases_unknown)
    show ?thesis
    proof
      assume "IDEList_releases (a # ides) = Inl e"
      with l have "e = KeyError (code a)" by simp
      with a have "a # ides = [] @ a # ides \<and>
        (\<forall>q \<in> set []. releases q = [] \<or> IDECode_get (code q) \<noteq> Inr None) \<and>
        releases a \<noteq> [] \<and> IDECode_get (code a) = Inr None \<and> e = KeyError (code a)"
        by simp
      then show "\<exists>pre p post. a # ides = pre @ p # post \<and>
        (\<forall>q \<in> set pre. releases q = [] \<or> IDECode_get (code q) \<noteq> Inr None) \<and>
        releases p \<noteq> [] \<and> IDECode_get (code p) = Inr None \<and> e = KeyError (code p)"
        by blast
    next
      assume "\<exists>pre p post. a # ides = pre @ p # post \<and>
        (\<forall>q \<in> set pre. releases q = [] \<or> IDECode_get (code q) \<noteq> Inr None) \<and>
        releases p \<noteq> [] \<and> IDECode_get (code p) = Inr None \<and> e = KeyError (code p)"
      then obtain pre p post where *: "a # ides = pre @ p # post"
        "\<forall>q \<in> set pre. releases q = [] \<or> IDECode_get (code q) \<noteq> Inr None"
        "releases p \<noteq> []" "IDECode_get (code p) = Inr None" "e = KeyError (code p)"
        by blast
      have "pre = []"
      proof (rule ccontr)
        assume "pre \<noteq> []"
        with *(1) have "a \<in> set pre" by (cases pre) auto
        with *(2) False show False by blast
      qed
      with *(1) have "p = a" by simp
      with l *(5) show "IDEList_releases (a # ides) = Inl e" by simp
    qed
  qed
qed

lemma known_codes_releases:
  assumes "\<forall>p \<in> set ides. IDECode_get (code p) \<noteq> Inr None"
  shows "\<exists>crs. IDEList_releases ides = Inr crs"
proof (cases "IDEList_releases ides")
  case (Inl e)
  then obtain pre p post where "ides = pre @ p # post" "IDECode_get (code p) = Inr None"
    unfolding IDEList_releases_Inl by blast
  then have "p \<in> set ides" "IDECode_get (code p) = Inr None" by simp_all
  with assms show ?thesis by blast
next
  case (Inr crs)
  then show ?thesis by blast
qed

section \<open>The grouped view and its keys\<close>

lemma example_grouped_view: "update_json example_ides = Inr example_grouped"
proof -
  have "IDEList_releases example_ides = Inr example_pairs" by (rule example_releases)
  then show ?thesis
    by (simp add: update_json_def example_pairs_def json_step_def release_as_json_def
        isoformat_def four_digits_def two_digits_def digit_char_def example_grouped_def)
qed

lemma example_ides_known: "\<forall>p \<in> set example_ides. IDECode_get (code p) \<noteq> Inr None"
proof -
  have "IDECode_get ''IIU'' = Inr (Some IIU)" "IDECode_get ''IIC'' = Inr (Some IIC)"
    by (simp_all add: IDECode_get_Some)
  then show ?thesis by (simp add: example_ides_def)
qed

text \<open>
  C5, as it is stated, fails: a product with a known code and no release gives its
  member no value at all. The mapping has a key only once a release has been appended
  under it, so for the one product \<open>CL\<close> without releases the mapping is empty, not
  the mapping of \<open>CL\<close> to the empty list.
\<close>

theorem grouped_view_value_per_identity_counterexample:
  "IDECode_get (code (hd no_release_ides)) = Inr (Some CL) \<and>
   releases_of no_release_ides CL = [] \<and>
   update_json no_release_ides = Inr [] \<and>
   update_json no_release_ides \<noteq> Inr [(IDECode_name CL, [])]"
proof -
  have "IDECode_get ''CL'' = Inr (Some CL)" by (simp add: IDECode_get_Some)
  moreover have "IDEList_releases no_release_ides = Inr []"
    by (simp add: no_release_ides_def)
  then have "update_json no_release_ides = Inr []" by (simp add: update_json_def)
  ultimately show ?thesis by (simp add: no_release_ides_def releases_of_def)
qed

text \<open>
  C5, amended. For a list of products whose codes are all known, \<^verbatim>\<open>_update_json\<close>
  returns a mapping with distinct keys in which every member that has a release in the
  input has, at its name, the list of the JSON objects of its releases, all of them
  (those without a build too), in the order of the input; a member without any release
  has no key, and no other string is a key. The object of a release determines the
  release: two releases with dates in range and the same object are equal.
\<close>

theorem grouped_view_preserves_releases:
  assumes "\<forall>p \<in> set ides. IDECode_get (code p) \<noteq> Inr None"
  shows "\<exists>g. update_json ides = Inr g \<and> distinct (map fst g) \<and>
           (\<forall>c. map_of g (IDECode_name c) =
                  (if releases_of ides c = [] then None
                   else Some (map release_as_json (releases_of ides c)))) \<and>
           (\<forall>k. (\<forall>c. k \<noteq> IDECode_name c) \<longrightarrow> map_of g k = None) \<and>
           (\<forall>r r'. date_in_range (date r) \<longrightarrow> date_in_range (date r') \<longrightarrow>
                   release_as_json r = release_as_json r' \<longrightarrow> r = r')"
proof -
  from known_codes_releases [OF assms] obtain crs where "IDEList_releases ides = Inr crs"
    by blast
  then obtain g where g: "update_json ides = Inr g" by (simp add: update_json_def)
  note l = update_json_lookup [OF g]
  from g l(1) l(2) l(3) release_as_json_inject show ?thesis by blast
qed

theorem grouped_view_preserves_releases_witness:
  "update_json example_ides = Inr example_grouped \<and>
   releases_of example_ides IIC =
     [\<lparr>version = ''2023.3'', build = None, date = \<lparr>year = 2023, month = 11, day = 1\<rparr>\<rparr>] \<and>
   map_of example_grouped ''IIC'' =
     Some [[(''version'', JString ''2023.3''), (''build'', JNull), (''date'', JString ''2023-11-01'')]] \<and>
   map_of example_grouped ''RR'' = None"
proof -
  from grouped_view_preserves_releases [OF example_ides_known] example_grouped_view
  have *: "map_of example_grouped (IDECode_name c) =
            (if releases_of example_ides c = [] then None
             else Some (map release_as_json (releases_of example_ides c)))" for c
    by auto
  have r: "releases_of example_ides IIC =
     [\<lparr>version = ''2023.3'', build = None, date = \<lparr>year = 2023, month = 11, day = 1\<rparr>\<rparr>]"
    "releases_of example_ides RR = []"
    by (simp_all add: releases_of_def example_ides_def)
  from * [of IIC] * [of RR] r
  have "map_of example_grouped ''IIC'' =
     Some [[(''version'', JString ''2023.3''), (''build'', JNull), (''date'', JString ''2023-11-01'')]]"
    and "map_of example_grouped ''RR'' = None"
    by (simp_all add: release_as_json_def isoformat_def four_digits_def two_digits_def digit_char_def)
  with example_grouped_view r(1) show ?thesis by simp
qed

text \<open>
  C6. In the mapping that \<^verbatim>\<open>_update_json\<close> returns every key is the name of a member
  (\<^verbatim>\<open>code.name\<close>, the short code, which is never a display name); the releases of a
  product stand under the name of the member that the code of the product names, which
  is that code; and every value is a list of objects with the keys \<^verbatim>\<open>version\<close>,
  \<^verbatim>\<open>build\<close> and \<^verbatim>\<open>date\<close>, each the object of a release of a product with that code.
\<close>

theorem grouped_view_keyed_by_member_name:
  assumes "update_json ides = Inr g"
  shows "(\<forall>k \<in> set (map fst g). (\<exists>c. k = IDECode_name c) \<and> (\<forall>c. k \<noteq> IDECode_value c)) \<and>
         (\<forall>p \<in> set ides. \<forall>r \<in> set (releases p).
            \<exists>c rs. IDECode_getitem (code p) = Inr c \<and> IDECode_name c = code p \<and>
                    map_of g (IDECode_name c) = Some rs \<and> release_as_json r \<in> set rs) \<and>
         (\<forall>krs \<in> set g. \<forall>obj \<in> set (snd krs).
            map fst obj = [''version'', ''build'', ''date''] \<and>
            (\<exists>p \<in> set ides. \<exists>r \<in> set (releases p). code p = fst krs \<and> obj = release_as_json r))"
proof (intro conjI ballI)
  note l = update_json_lookup [OF assms]
  from assms obtain crs where crs: "IDEList_releases ides = Inr crs"
    by (auto simp: update_json_def split: sum.splits)
  {
    fix k assume "k \<in> set (map fst g)"
    then have "map_of g k \<noteq> None" by (simp add: map_of_None_keys)
    with l(3) [of k] obtain c where c: "k = IDECode_name c" by blast
    then show "\<exists>c. k = IDECode_name c" by blast
    from c show "\<forall>c. k \<noteq> IDECode_value c" by (simp add: IDECode_name_not_value)
  }
  {
    fix p r assume p: "p \<in> set ides" and r: "r \<in> set (releases p)"
    then have "releases p \<noteq> []" by auto
    with p crs IDEList_releases_Inr_iff [of ides] obtain c where c: "IDECode_name c = code p"
      by blast
    then have gi: "IDECode_getitem (code p) = Inr c" by (simp add: IDECode_getitem_Inr)
    from p r c have "r \<in> set (releases_of ides c)" by (auto simp: releases_of_def)
    then have "releases_of ides c \<noteq> []" "release_as_json r \<in> set (map release_as_json (releases_of ides c))"
      by auto
    with l(2) [of c] gi c
    show "\<exists>c rs. IDECode_getitem (code p) = Inr c \<and> IDECode_name c = code p \<and>
                  map_of g (IDECode_name c) = Some rs \<and> release_as_json r \<in> set rs"
      by auto
  }
  {
    fix krs obj assume krs: "krs \<in> set g" and obj: "obj \<in> set (snd krs)"
    from krs l(1) have m: "map_of g (fst krs) = Some (snd krs)" by simp
    then have "fst krs \<in> set (map fst g)" using krs by auto
    with l(3) [of "fst krs"] m obtain c where c: "fst krs = IDECode_name c" by force
    with m l(2) [of c] have "snd krs = map release_as_json (releases_of ides c)"
      by (auto split: if_splits)
    with obj obtain r where r: "r \<in> set (releases_of ides c)" "obj = release_as_json r" by auto
    from r(2) show "map fst obj = [''version'', ''build'', ''date'']"
      by (simp add: release_as_json_def)
    from r(1) obtain p where "p \<in> set ides" "code p = IDECode_name c" "r \<in> set (releases p)"
      by (auto simp: releases_of_def)
    with c r(2) show "\<exists>p \<in> set ides. \<exists>r \<in> set (releases p). code p = fst krs \<and> obj = release_as_json r"
      by auto
  }
qed

theorem grouped_view_keyed_by_member_name_witness:
  "update_json example_ides = Inr example_grouped \<and>
   map fst example_grouped = [''IIU'', ''IIC''] \<and>
   IDECode_name IIU = ''IIU'' \<and> IDECode_value IIU = ''IntelliJ IDEA Ultimate'' \<and>
   list_all (\<lambda>krs. list_all (\<lambda>obj. map fst obj = [''version'', ''build'', ''date'']) (snd krs))
     example_grouped"
proof -
  note t = grouped_view_keyed_by_member_name [OF example_grouped_view]
  from t have "\<forall>krs \<in> set example_grouped. \<forall>obj \<in> set (snd krs).
            map fst obj = [''version'', ''build'', ''date'']"
    by blast
  then have "list_all (\<lambda>krs. list_all (\<lambda>obj. map fst obj = [''version'', ''build'', ''date'']) (snd krs))
     example_grouped"
    by (simp only: list_all_iff)
  moreover have "map fst example_grouped = [''IIU'', ''IIC'']" by (simp add: example_grouped_def)
  ultimately show ?thesis using example_grouped_view by simp
qed

section \<open>The unguarded lookup of the iterator\<close>

lemma aggregator_error:
  assumes "IDEList_releases ides = Inr crs"
    and "map_version_to_build_numbers V ides = Inl e"
  shows "\<exists>v. V v = Inl e"
proof -
  obtain t where t: "table_loop crs [] = Inr t" using table_loop_total by blast
  with assms have "sort_keys V t = Inl e"
    by (auto simp: map_version_to_build_numbers_def split: sum.splits)
  from sort_keys_Inl [OF this] obtain pre x post where
    "t = pre @ x # post" and "V (fst x) = Inl e"
    by blast
  then show ?thesis by blast
qed

text \<open>
  C10, as it is stated, fails in its last part: a product with an unknown code and no
  release makes no lookup, and the iteration ends without an exception.
\<close>

theorem iterator_raises_on_unknown_code_counterexample:
  "IDECode_get (code (hd empty_unknown_ides)) = Inr None \<and>
   IDEList_releases empty_unknown_ides = Inr []"
proof -
  have "IDECode_get ''XX'' = Inr None"
  proof -
    have "IDECode_name m \<noteq> ''XX''" for m by (cases m) simp_all
    then show ?thesis by (simp add: IDECode_get_None)
  qed
  then show ?thesis by (simp add: empty_unknown_ides_def)
qed

text \<open>
  C10, amended. The iterator looks the code of a product up, unguarded, once for every
  release of the product. When every product of the list has a code for which
  \<^verbatim>\<open>IDECode.get\<close> does not return \<^verbatim>\<open>None\<close>, the lookup never fails: the iteration
  succeeds, so \<^verbatim>\<open>_update_json\<close> returns and an exception of the aggregator is one that
  \<^verbatim>\<open>Version\<close> raised, not the one of the lookup; the list that \<^verbatim>\<open>main\<close> builds is such
  a list. Without that precondition the iterator raises exactly when some product with
  an unknown code has a release, and the exception is the \<^verbatim>\<open>KeyError\<close> of the code of
  the first such product.
\<close>

theorem iterator_lookup_safety:
  "((\<forall>p \<in> set ides. IDECode_get (code p) \<noteq> Inr None) \<longrightarrow>
      (\<exists>crs. IDEList_releases ides = Inr crs) \<and>
      (\<exists>g. update_json ides = Inr g) \<and>
      (\<forall>e. map_version_to_build_numbers Version ides = Inl e \<longrightarrow>
            (\<exists>v. Version v = Inl e))) \<and>
   (\<exists>ides'. main_ides products = Inr ides' \<and>
      (\<forall>p \<in> set ides'. IDECode_get (code p) \<noteq> Inr None) \<and>
      (\<exists>crs. IDEList_releases ides' = Inr crs)) \<and>
   (\<forall>e. IDEList_releases ides = Inl e \<longleftrightarrow>
      (\<exists>pre p post. ides = pre @ p # post \<and>
         (\<forall>q \<in> set pre. releases q = [] \<or> IDECode_get (code q) \<noteq> Inr None) \<and>
         releases p \<noteq> [] \<and> IDECode_get (code p) = Inr None \<and> e = KeyError (code p)))"
proof (intro conjI impI allI)
  assume known: "\<forall>p \<in> set ides. IDECode_get (code p) \<noteq> Inr None"
  from known_codes_releases [OF known] obtain crs where crs: "IDEList_releases ides = Inr crs"
    by blast
  then show "\<exists>crs. IDEList_releases ides = Inr crs" by blast
  from crs show "\<exists>g. update_json ides = Inr g" by (simp add: update_json_def)
  fix e assume "map_version_to_build_numbers Version ides = Inl e"
  with crs show "\<exists>v. Version v = Inl e" by (rule aggregator_error)
next
  let ?ides = "filter (\<lambda>p. IDECode_get (code p) \<noteq> Inr None) products"
  have k: "\<forall>p \<in> set ?ides. IDECode_get (code p) \<noteq> Inr None" by simp
  from known_codes_releases [OF k] main_ides_filter [of products] k
  show "\<exists>ides'. main_ides products = Inr ides' \<and>
      (\<forall>p \<in> set ides'. IDECode_get (code p) \<noteq> Inr None) \<and>
      (\<exists>crs. IDEList_releases ides' = Inr crs)"
    by blast
next
  fix e
  show "IDEList_releases ides = Inl e \<longleftrightarrow>
      (\<exists>pre p post. ides = pre @ p # post \<and>
         (\<forall>q \<in> set pre. releases q = [] \<or> IDECode_get (code q) \<noteq> Inr None) \<and>
         releases p \<noteq> [] \<and> IDECode_get (code p) = Inr None \<and> e = KeyError (code p))"
    by (rule IDEList_releases_Inl)
qed

theorem iterator_lookup_safety_witness:
  "list_all (\<lambda>p. IDECode_get (code p) \<noteq> Inr None) example_ides \<and>
   IDEList_releases example_ides = Inr example_pairs \<and>
   update_json example_ides = Inr example_grouped \<and>
   main_ides two_codes = Inr [] \<and>
   IDEList_releases unknown_ides = Inl (KeyError ''XX'')"
proof -
  note t = iterator_lookup_safety
    [where ides = unknown_ides and products = two_codes and Version = packaging_Version]
  have x: "IDECode_get ''XX'' = Inr None" "IDECode_get ''AA'' = Inr None"
  proof -
    have "IDECode_name m \<noteq> ''XX''" "IDECode_name m \<noteq> ''AA''" for m by (cases m; simp)+
    then show "IDECode_get ''XX'' = Inr None" "IDECode_get ''AA'' = Inr None"
      by (simp_all add: IDECode_get_None)
  qed
  have u: "IDECode_get ''IIU'' = Inr (Some IIU)" by (simp add: IDECode_get_Some)
  have "unknown_ides = [hd unknown_ides] @ (hd (tl unknown_ides)) # [] \<and>
        (\<forall>q \<in> set [hd unknown_ides]. releases q = [] \<or> IDECode_get (code q) \<noteq> Inr None) \<and>
        releases (hd (tl unknown_ides)) \<noteq> [] \<and>
        IDECode_get (code (hd (tl unknown_ides))) = Inr None \<and>
        KeyError ''XX'' = KeyError (code (hd (tl unknown_ides)))"
    by (simp add: unknown_ides_def x u)
  then have "\<exists>pre p post. unknown_ides = pre @ p # post \<and>
         (\<forall>q \<in> set pre. releases q = [] \<or> IDECode_get (code q) \<noteq> Inr None) \<and>
         releases p \<noteq> [] \<and> IDECode_get (code p) = Inr None \<and> KeyError ''XX'' = KeyError (code p)"
    by blast
  with t have a: "IDEList_releases unknown_ides = Inl (KeyError ''XX'')" by blast
  from t main_ides_filter [of two_codes] x
  have b: "main_ides two_codes = Inr []" by (simp add: two_codes_def)
  from example_ides_known have "list_all (\<lambda>p. IDECode_get (code p) \<noteq> Inr None) example_ides"
    by (simp only: list_all_iff)
  with a b example_releases example_grouped_view show ?thesis by simp
qed

section \<open>The key of a dotted-numeric version\<close>

lemma seq_first:
  "p s = (x, r) # rest \<Longrightarrow> f x r = y # ys \<Longrightarrow> \<exists>zs. seq p f s = y # zs"
  by (simp add: seq_def)

lemma seq_none: "p s = [] \<Longrightarrow> seq p f s = []"
  by (simp add: seq_def)

lemma opt_none: "p s = [] \<Longrightarrow> opt p s = [(None, s)]"
  by (simp add: opt_def)

lemma class_plus_stop: "s = [] \<or> \<not> P (hd s) \<Longrightarrow> class_plus P s = []"
  by (cases s) auto

lemma class_plus_first:
  "m \<noteq> [] \<Longrightarrow> list_all P m \<Longrightarrow> r = [] \<or> \<not> P (hd r) \<Longrightarrow>
   \<exists>rest. class_plus P (m @ r) = (m, r) # rest"
proof (induction m)
  case Nil
  then show ?case by simp
next
  case (Cons c m)
  show ?case
  proof (cases "m = []")
    case True
    with Cons.prems show ?thesis by (simp add: class_plus_stop)
  next
    case False
    with Cons obtain rest where "class_plus P (m @ r) = (m, r) # rest" by auto
    with Cons.prems show ?thesis by simp
  qed
qed

lemma class_plus_parts:
  "(m, r) \<in> set (class_plus P s) \<Longrightarrow> s = m @ r \<and> m \<noteq> []"
proof (induction s arbitrary: m r)
  case Nil
  then show ?case by simp
next
  case (Cons c s)
  then show ?case by (fastforce split: if_splits)
qed

lemma seq_single: "p s = [(x, r)] \<Longrightarrow> seq p f s = f x r"
  by (simp add: seq_def)

lemma is_digit_nat: "is_digit c \<longleftrightarrow> 48 \<le> (of_char c :: nat) \<and> (of_char c :: nat) \<le> 57"
  by (simp add: is_digit_def less_eq_char_def)

lemma digit_not_space: "is_digit c \<Longrightarrow> \<not> is_space c"
  by (auto simp: is_space_def is_digit_nat)

lemma digit_lower: "is_digit c \<Longrightarrow> lower c = c"
  by (auto simp: lower_def is_digit_nat less_eq_char_def)

lemma digit_not_letter: "is_digit c \<Longrightarrow> c \<noteq> CHR ''v'' \<and> c \<noteq> CHR ''!'' \<and> c \<noteq> CHR ''.''"
  by (auto simp: is_digit_nat)

lemma dot_facts: "\<not> is_digit CHR ''.''" "lower CHR ''.'' = CHR ''.''"
  by (simp_all add: is_digit_nat lower_def less_eq_char_def)

lemma dotted_Cons: "dotted (seg # segs) = seg @ dotted_tail segs"
  by (induction segs arbitrary: seg) (simp_all add: dotted_tail_def)

lemma dotted_tail_start: "dotted_tail segs = [] \<or> \<not> is_digit (hd (dotted_tail segs))"
  by (cases segs) (simp_all add: dotted_tail_def dot_facts)

lemma sep_plus_star_dotted_tail:
  "\<forall>seg \<in> set segs. decimal_digits seg \<Longrightarrow>
   \<exists>rest. sep_plus_star (\<lambda>c. c = CHR ''.'') is_digit (dotted_tail segs) = (segs, []) # rest"
proof (induction segs)
  case Nil
  then show ?case by (simp add: dotted_tail_def)
next
  case (Cons seg segs)
  then have seg: "seg \<noteq> []" "list_all is_digit seg" by (simp_all add: decimal_digits_def)
  from class_plus_first [OF seg dotted_tail_start [of segs]]
  obtain r1 where r1: "class_plus is_digit (seg @ dotted_tail segs) = (seg, dotted_tail segs) # r1"
    by blast
  from Cons obtain r2 where
    r2: "sep_plus_star (\<lambda>c. c = CHR ''.'') is_digit (dotted_tail segs) = (segs, []) # r2"
    by auto
  have "dotted_tail (seg # segs) = CHR ''.'' # seg @ dotted_tail segs"
    by (simp add: dotted_tail_def)
  with r1 r2 show ?case by simp
qed

lemma release_group_dotted:
  assumes "\<forall>seg \<in> set segs. decimal_digits seg" and "segs \<noteq> []"
  shows "\<exists>rest. release_group (dotted segs) = (segs, []) # rest"
proof -
  from assms(2) obtain seg segs' where segs: "segs = seg # segs'" by (cases segs) auto
  with assms(1) have seg: "seg \<noteq> []" "list_all is_digit seg" and
    segs': "\<forall>seg \<in> set segs'. decimal_digits seg"
    by (simp_all add: decimal_digits_def)
  from class_plus_first [OF seg dotted_tail_start [of segs']]
  obtain r1 where r1: "class_plus is_digit (dotted segs) = (seg, dotted_tail segs') # r1"
    by (auto simp: segs dotted_Cons)
  from sep_plus_star_dotted_tail [OF segs'] obtain r2 where
    r2: "sep_plus_star (\<lambda>c. c = CHR ''.'') is_digit (dotted_tail segs') = (segs', []) # r2"
    by blast
  then have "seq (sep_plus_star (\<lambda>c. c = CHR ''.'') is_digit) (\<lambda>ds. ret (seg # ds)) (dotted_tail segs')
               = (segs, []) # concat (map (\<lambda>(x, r). ret (seg # x) r) r2)"
    by (simp add: seq_def ret_def segs)
  with r1 show ?thesis
    unfolding release_group_def by (rule seq_first)
qed

lemma after_release:
  "seq (opt pre_group) (\<lambda>pre.
     seq (opt post_group) (\<lambda>post.
     seq (opt dev_group) (\<lambda>dev.
     seq (opt local_group) (\<lambda>loc.
     seq (class_star is_space) (\<lambda>_.
     seq end_of_string (\<lambda>_. ret (epoch, release, pre, post, dev, loc))))))) []
   = [((epoch, release, None, None, None, None), [])]"
  by (simp add: seq_def opt_def ret_def pre_group_def post_group_def dev_group_def local_group_def
      letter_group_def one_def alt_def lit_def class_star_def end_of_string_def)

lemma dotted_chars:
  "\<forall>seg \<in> set segs. decimal_digits seg \<Longrightarrow> c \<in> set (dotted segs) \<Longrightarrow> is_digit c \<or> c = CHR ''.''"
proof (induction segs rule: dotted.induct)
  case 1
  then show ?case by simp
next
  case (2 seg)
  then show ?case by (auto simp: decimal_digits_def list_all_iff)
next
  case (3 seg v va)
  then show ?case by (auto simp: decimal_digits_def list_all_iff)
qed

lemma dotted_hd:
  assumes "\<forall>seg \<in> set segs. decimal_digits seg" and "segs \<noteq> []"
  shows "dotted segs \<noteq> [] \<and> is_digit (hd (dotted segs))"
proof -
  from assms(2) obtain seg segs' where segs: "segs = seg # segs'" by (cases segs) auto
  with assms(1) have "seg \<noteq> []" "list_all is_digit seg" by (simp_all add: decimal_digits_def)
  then show ?thesis by (cases seg) (simp_all add: segs dotted_Cons)
qed

lemma lit_bang_none:
  assumes "\<forall>c \<in> set r. is_digit c \<or> c = CHR ''.''"
  shows "lit ''!'' r = []"
proof (cases r)
  case Nil
  then show ?thesis by (simp add: lit_def)
next
  case (Cons c r')
  with assms have "is_digit c \<or> c = CHR ''.''" by simp
  then have "lower c \<noteq> CHR ''!''"
    using digit_lower [of c] digit_not_letter [of c] dot_facts by auto
  with Cons show ?thesis by (simp add: lit_def)
qed

lemma epoch_group_dotted:
  assumes "\<forall>seg \<in> set segs. decimal_digits seg"
  shows "epoch_group (dotted segs) = []"
proof -
  have "seq (lit ''!'') (\<lambda>_. ret e) r = []" if "(e, r) \<in> set (class_plus is_digit (dotted segs))" for e r
  proof -
    from class_plus_parts [OF that] have "set r \<subseteq> set (dotted segs)" by auto
    with dotted_chars [OF assms] have "\<forall>c \<in> set r. is_digit c \<or> c = CHR ''.''" by blast
    then have "lit ''!'' r = []" by (rule lit_bang_none)
    then show ?thesis by (rule seq_none)
  qed
  then show ?thesis by (auto simp: epoch_group_def seq_def)
qed

text \<open>
  On a string of dot-separated segments of decimal digits the pattern matches, the
  release group is the list of the segments and every other group is absent.
\<close>

lemma regex_search_dotted:
  assumes "\<forall>seg \<in> set segs. decimal_digits seg" and "segs \<noteq> []"
  shows "regex_search (dotted segs) = Some (None, segs, None, None, None, None)"
proof -
  let ?s = "dotted segs"
  from dotted_hd [OF assms] obtain c s' where s: "?s = c # s'" and c: "is_digit c"
    by (cases ?s) auto
  have a: "class_star is_space ?s = [([], ?s)]"
    using c digit_not_space [of c] by (simp add: class_star_def s)
  have "lower c \<noteq> CHR ''v''" using c digit_lower [of c] digit_not_letter [of c] by simp
  then have "lit ''v'' ?s = []" by (simp add: lit_def s)
  then have b: "opt (lit ''v'') ?s = [(None, ?s)]" by (rule opt_none)
  have e: "opt epoch_group ?s = [(None, ?s)]"
    using epoch_group_dotted [OF assms(1)] by (rule opt_none)
  from release_group_dotted [OF assms] obtain rest where
    r: "release_group ?s = (segs, []) # rest" by blast
  let ?k = "\<lambda>epoch release.
     seq (opt pre_group) (\<lambda>pre.
     seq (opt post_group) (\<lambda>post.
     seq (opt dev_group) (\<lambda>dev.
     seq (opt local_group) (\<lambda>loc.
     seq (class_star is_space) (\<lambda>_.
     seq end_of_string (\<lambda>_. ret (epoch, release, pre, post, dev, loc)))))))"
  have v: "version_regex ?s = seq release_group (?k (None :: string option)) ?s"
    unfolding version_regex_def
    by (simp only:
        seq_single [where p = "class_star is_space" and s = ?s and x = "[]" and r = ?s, OF a]
        seq_single [where p = "opt (lit ''v'')" and s = ?s and x = None and r = ?s, OF b]
        seq_single [where p = "opt epoch_group" and s = ?s and x = None and r = ?s, OF e])
  from seq_first [where p = release_group and f = "?k (None :: string option)" and s = ?s and x = segs
      and r = "[]", OF r after_release [of "None :: string option" segs]]
  obtain zs where "seq release_group (?k (None :: string option)) ?s = ((None, segs, None, None, None, None), []) # zs"
    by blast
  with v have "version_regex ?s = ((None, segs, None, None, None, None), []) # zs"
    by (rule trans)
  then show ?thesis by (simp add: regex_search_def)
qed

lemma collect_digit_segments:
  "\<forall>seg \<in> set segs. digit_segment seg \<Longrightarrow>
   collect (map int_of_digits segs) = Inr (map digits_value segs)"
  by (induction segs) (simp_all add: digit_segment_def int_of_digits_def)

lemma packaging_Version_dotted:
  assumes "\<forall>seg \<in> set segs. digit_segment seg" and "segs \<noteq> []"
  shows "packaging_Version (dotted segs) =
           Inr (0, segment_key segs, Infinity, NegativeInfinity, Infinity, 0, [])"
proof -
  from assms(1) have "\<forall>seg \<in> set segs. decimal_digits seg" by (simp add: digit_segment_def)
  from regex_search_dotted [OF this assms(2)] show ?thesis
    by (simp add: packaging_Version_def cmpkey_def segment_key_def
        parse_local_version_def and_then_def collect_digit_segments [OF assms(1)])
qed

text \<open>A version that is one number of more digits than \<^verbatim>\<open>int\<close> converts matches the
  pattern, and the conversion of its release raises.\<close>

lemma packaging_Version_long_number:
  assumes "list_all is_digit ds" and "max_str_digits < length ds"
  shows "packaging_Version ds = Inl (ValueError ds)"
proof -
  from assms(2) have "ds \<noteq> []" by auto
  with assms(1) have "\<forall>seg \<in> set [ds]. decimal_digits seg" by (simp add: decimal_digits_def)
  from regex_search_dotted [OF this] assms(2) show ?thesis
    by (simp add: packaging_Version_def and_then_def int_of_digits_def)
qed

text \<open>Keys and exceptions of particular strings, as release 24.1 of the library gives
  them.\<close>

lemma packaging_Version_examples:
  "packaging_Version ''2024.1.0'' = Inr (0, [2024, 1], Infinity, NegativeInfinity, Infinity, 0, [])"
  "packaging_Version ''01.02'' = Inr (0, [1, 2], Infinity, NegativeInfinity, Infinity, 0, [])"
  "packaging_Version ''0'' = Inr (0, [], Infinity, NegativeInfinity, Infinity, 0, [])"
  "packaging_Version ''V1'' = Inr (0, [1], Infinity, NegativeInfinity, Infinity, 0, [])"
  "packaging_Version ''1.0a-1'' = Inr (0, [1], (1, ''a'', 1), NegativeInfinity, Infinity, 0, [])"
  "packaging_Version ''1.0a-'' = Inr (0, [1], (1, ''a'', 0), NegativeInfinity, Infinity, 0, [])"
  "packaging_Version ''1.0PREVIEW3'' = Inr (0, [1], (1, ''rc'', 3), NegativeInfinity, Infinity, 0, [])"
  "packaging_Version ''1.0-1'' = Inr (0, [1], Infinity, (1, ''post'', 1), Infinity, 0, [])"
  "packaging_Version ''1.0rev'' = Inr (0, [1], Infinity, (1, ''post'', 0), Infinity, 0, [])"
  "packaging_Version ''1.0_r3'' = Inr (0, [1], Infinity, (1, ''post'', 3), Infinity, 0, [])"
  "packaging_Version ''1.0.dev'' = Inr (0, [1], NegativeInfinity, NegativeInfinity, (1, ''dev'', 0), 0, [])"
  "packaging_Version ''1.0b2.post345.dev456'' =
     Inr (0, [1], (1, ''b'', 2), (1, ''post'', 345), (1, ''dev'', 456), 0, [])"
  "packaging_Version ''1.0+5.abc'' =
     Inr (0, [1], Infinity, NegativeInfinity, Infinity, 1, [(1, 5, []), (0, 0, ''abc'')])"
  "packaging_Version '' v1!2024.10.3-rc.1.post2.dev3+Ab.12-x '' =
     Inr (1, [2024, 10, 3], (1, ''rc'', 1), (1, ''post'', 2), (1, ''dev'', 3), 1,
          [(0, 0, ''ab''), (1, 12, []), (0, 0, ''x'')])"
  "packaging_Version ''1.0+'' = Inl (InvalidVersion ''1.0+'')"
  "packaging_Version ''1.0-'' = Inl (InvalidVersion ''1.0-'')"
  "packaging_Version ''1..0'' = Inl (InvalidVersion ''1..0'')"
  "packaging_Version ''1.0prev'' = Inl (InvalidVersion ''1.0prev'')"
  "packaging_Version ''1.0-1-1'' = Inl (InvalidVersion ''1.0-1-1'')"
  "packaging_Version ''1.0a1b2'' = Inl (InvalidVersion ''1.0a1b2'')"
  "packaging_Version [] = Inl (InvalidVersion [])"
  by code_simp+

lemma version_ge_dotted:
  assumes "\<forall>seg \<in> set a. digit_segment seg" "a \<noteq> []"
    and "\<forall>seg \<in> set b. digit_segment seg" "b \<noteq> []"
  shows "version_ge packaging_Version (dotted a) (dotted b) \<longleftrightarrow> segment_key b \<le> segment_key a"
    and "version_gt packaging_Version (dotted a) (dotted b) \<longleftrightarrow> segment_key b < segment_key a"
  by (auto simp: version_ge_def version_gt_def packaging_Version_dotted [OF assms(1,2)]
      packaging_Version_dotted [OF assms(3,4)])

text \<open>
  X1. When the version of every release with a build is dotted-numeric, with at most
  4300 digits in a segment, the aggregator returns a matrix, and of two of its rows the
  earlier one has the greater or equal list of integer segments (trailing zeros apart),
  in the lexicographic order of lists of integers.
\<close>

theorem dotted_versions_sorted_by_segments:
  assumes "IDEList_releases ides = Inr crs"
    and "\<forall>cr \<in> set crs. build (snd cr) \<noteq> None \<longrightarrow> (\<exists>segs. dotted_numeric (version (snd cr)) segs)"
  shows "\<exists>m. map_version_to_build_numbers packaging_Version ides = Inr m \<and>
           (\<forall>i j a b. i < j \<longrightarrow> j < length m \<longrightarrow>
              dotted_numeric (fst (m ! i)) a \<longrightarrow> dotted_numeric (fst (m ! j)) b \<longrightarrow>
              segment_key b \<le> segment_key a)"
proof -
  have "\<forall>cr \<in> set crs. build (snd cr) \<noteq> None \<longrightarrow> (\<exists>k. packaging_Version (version (snd cr)) = Inr k)"
  proof (intro ballI impI)
    fix cr assume "cr \<in> set crs" "build (snd cr) \<noteq> None"
    with assms(2) obtain segs where "dotted_numeric (version (snd cr)) segs" by blast
    then have "packaging_Version (version (snd cr)) =
                 Inr (0, segment_key segs, Infinity, NegativeInfinity, Infinity, 0, [])"
      by (simp add: dotted_numeric_def list_all_iff packaging_Version_dotted)
    then show "\<exists>k. packaging_Version (version (snd cr)) = Inr k" by blast
  qed
  from aggregator_total [OF assms(1) this] obtain m where
    m: "map_version_to_build_numbers packaging_Version ides = Inr m" by blast
  from aggregator_sorted [OF m]
  have s: "version_ge packaging_Version (map fst m ! i) (map fst m ! j)" if "i < j" "j < length m" for i j
    using that by (simp add: sorted_wrt_iff_nth_less)
  have "segment_key b \<le> segment_key a"
    if "i < j" "j < length m" "dotted_numeric (fst (m ! i)) a" "dotted_numeric (fst (m ! j)) b"
    for i j a b
  proof -
    from s [OF that(1,2)] that(1,2)
    have "version_ge packaging_Version (fst (m ! i)) (fst (m ! j))" by simp
    with that(3,4) show ?thesis
      by (simp add: dotted_numeric_def list_all_iff version_ge_dotted(1))
  qed
  with m show ?thesis by blast
qed

theorem dotted_versions_sorted_by_segments_witness:
  "IDEList_releases ordering_ides = Inr ordering_pairs \<and>
   dotted_numeric ''2024.10'' [''2024'', ''10''] \<and>
   dotted_numeric ''2024.9'' [''2024'', ''9''] \<and>
   segment_key [''2024'', ''9''] \<le> segment_key [''2024'', ''10''] \<and>
   segment_key [''2024'', ''9''] = [2024, 9] \<and> segment_key [''2024'', ''10''] = [2024, 10]"
proof -
  have a: "IDEList_releases ordering_ides = Inr ordering_pairs" by code_simp
  have d: "dotted_numeric ''2024.9'' [''2024'', ''9'']"
    "dotted_numeric ''2023.3.1'' [''2023'', ''3'', ''1'']"
    "dotted_numeric ''2024.10'' [''2024'', ''10'']"
    by code_simp+
  have b: "\<forall>cr \<in> set ordering_pairs. build (snd cr) \<noteq> None \<longrightarrow>
             (\<exists>segs. dotted_numeric (version (snd cr)) segs)"
    using d by (auto simp: ordering_pairs_def)
  have c: "map_version_to_build_numbers packaging_Version ordering_ides =
     Inr [(''2024.10'', [(PCP, Some ''2410.1'')]),
          (''2024.9'', [(PCP, Some ''249.1'')]),
          (''2023.3.1'', [(PCP, Some ''233.2'')])]"
    by code_simp
  from dotted_versions_sorted_by_segments [OF a b] c
  have "\<forall>i j a b. i < j \<longrightarrow> j < 3 \<longrightarrow>
          dotted_numeric (fst ([(''2024.10'', [(PCP, Some ''2410.1'')]),
            (''2024.9'', [(PCP, Some ''249.1'')]), (''2023.3.1'', [(PCP, Some ''233.2'')])] ! i)) a \<longrightarrow>
          dotted_numeric (fst ([(''2024.10'', [(PCP, Some ''2410.1'')]),
            (''2024.9'', [(PCP, Some ''249.1'')]), (''2023.3.1'', [(PCP, Some ''233.2'')])] ! j)) b \<longrightarrow>
          segment_key b \<le> segment_key a"
    by auto
  from this [rule_format, of 0 1 "[''2024'', ''10'']" "[''2024'', ''9'']"] d
  have "segment_key [''2024'', ''9''] \<le> segment_key [''2024'', ''10'']" by simp
  moreover have "segment_key [''2024'', ''9''] = [2024, 9]" "segment_key [''2024'', ''10''] = [2024, 10]"
    by code_simp+
  ultimately show ?thesis using a d by simp
qed

end
